theory Spec2Isabelle
  imports Main "HOL-Library.Multiset"
begin

section \<open>Regular expressions as backtracking matchers\<close>

text \<open>
  The scripts locate declarations with Python regular expressions. A pattern is embedded
  as a function from a match state to the list of all states in which the pattern can
  end, in the order in which Python's backtracking matcher tries them (a greedy
  repetition gives its longest match first, an alternation its branches from left to
  right). The first element of the list is the match that \<open>re.match\<close> reports. A state
  is the text captured by group 1 together with the input that is still to be read.

  Texts are lists of 8-bit characters; the character classes below are the ASCII parts
  of Python's \<open>\s\<close> and \<open>\w\<close>.
\<close>

type_synonym mstate = "string \<times> string"
type_synonym rx = "mstate \<Rightarrow> mstate list"

definition is_space :: "char \<Rightarrow> bool" where
  "is_space c = (let n = (of_char c :: nat) in n = 32 \<or> (9 \<le> n \<and> n \<le> 13) \<or> (28 \<le> n \<and> n \<le> 31))"

definition is_upper :: "char \<Rightarrow> bool" where
  "is_upper c = (let n = (of_char c :: nat) in 65 \<le> n \<and> n \<le> 90)"

definition is_word :: "char \<Rightarrow> bool" where
  "is_word c = (let n = (of_char c :: nat) in
     (48 \<le> n \<and> n \<le> 57) \<or> (65 \<le> n \<and> n \<le> 90) \<or> (97 \<le> n \<and> n \<le> 122) \<or> n = 95)"

definition chr :: "(char \<Rightarrow> bool) \<Rightarrow> rx" where
  "chr P = (\<lambda>(g, s). case s of [] \<Rightarrow> [] | c # cs \<Rightarrow> if P c then [(g, cs)] else [])"

definition lit :: "string \<Rightarrow> rx" where
  "lit w = (\<lambda>(g, s). if take (length w) s = w then [(g, drop (length w) s)] else [])"

fun star_from :: "(char \<Rightarrow> bool) \<Rightarrow> string \<Rightarrow> string list" where
  "star_from P [] = [[]]"
| "star_from P (c # cs) = (if P c then star_from P cs @ [c # cs] else [c # cs])"

definition star :: "(char \<Rightarrow> bool) \<Rightarrow> rx" where
  "star P = (\<lambda>(g, s). map (Pair g) (star_from P s))"

definition seq :: "rx \<Rightarrow> rx \<Rightarrow> rx" where
  "seq a b = (\<lambda>st. concat (map b (a st)))"

definition alt :: "rx \<Rightarrow> rx \<Rightarrow> rx" where
  "alt a b = (\<lambda>st. a st @ b st)"

definition eps :: rx where
  "eps = (\<lambda>st. [st])"

definition opt :: "rx \<Rightarrow> rx" where
  "opt a = alt a eps"

definition plus :: "(char \<Rightarrow> bool) \<Rightarrow> rx" where
  "plus P = seq (chr P) (star P)"

definition grp :: "rx \<Rightarrow> rx" where
  "grp a = (\<lambda>(g, s). map (\<lambda>(g', r). (take (length s - length r) s, r)) (a (g, s)))"

fun seqs :: "rx list \<Rightarrow> rx" where
  "seqs [] = eps"
| "seqs (a # as) = seq a (seqs as)"

fun alts :: "rx list \<Rightarrow> rx" where
  "alts [] = (\<lambda>st. [])"
| "alts (a # as) = alt a (alts as)"

text \<open>\<open>re.match(p, s)\<close>: the first way in which \<open>p\<close> matches at the start of \<open>s\<close>,
  as the pair of group 1 and the unread rest; \<open>None\<close> when there is none.\<close>

definition re_match :: "rx \<Rightarrow> string \<Rightarrow> mstate option" where
  "re_match p s = (case p ([], s) of [] \<Rightarrow> None | m # _ \<Rightarrow> Some m)"

section \<open>Method sizes (analyze\_methods.py)\<close>

record MethodInfo =
  method_name :: string
  start_line :: nat
  end_line :: nat
  line_count :: nat

text \<open>The compiled \<open>method_pattern\<close> of \<open>analyze_method_sizes\<close>.\<close>

definition method_pattern :: rx where
  "method_pattern = seqs [
     star is_space,
     opt (seqs [lit ''@override'', plus is_space]),
     opt (alts [seqs [lit ''static'', plus is_space],
                seqs [lit ''final'', plus is_space],
                seqs [lit ''const'', plus is_space]]),
     alts [seqs [lit ''Future<'', plus (\<lambda>c. c \<noteq> CHR ''>''), lit ''>''],
           seqs [lit ''Stream<'', plus (\<lambda>c. c \<noteq> CHR ''>''), lit ''>''],
           lit ''Widget'', lit ''void'', lit ''bool'', lit ''int'', lit ''double'',
           lit ''String'', lit ''List'', lit ''Map'', lit ''Set'',
           seqs [chr is_upper, star is_word]],
     plus is_space,
     grp (plus is_word),
     star is_space,
     lit ''('', star (\<lambda>c. c \<noteq> CHR '')''), lit '')'',
     star is_space, opt (lit ''async''), star is_space, lit ''{'']"

text \<open>The \<open>for char in lines[j]\<close> loop: the depth after one line, starting from depth
  \<open>d\<close>; the loop is left as soon as a closing brace brings the depth to 0.\<close>

fun count_line :: "int \<Rightarrow> string \<Rightarrow> int" where
  "count_line d [] = d"
| "count_line d (c # cs) =
     (if c = CHR ''{'' then count_line (d + 1) cs
      else if c = CHR ''}'' then (if d - 1 = 0 then 0 else count_line (d - 1) cs)
      else count_line d cs)"

text \<open>The inner \<open>while j < len(lines) and brace_count > 0\<close> loop; the result is the
  final value of \<open>j\<close>.\<close>

function find_end :: "string list \<Rightarrow> int \<Rightarrow> nat \<Rightarrow> nat" where
  "find_end lines d j =
     (if j < length lines \<and> d > 0 then find_end lines (count_line d (lines ! j)) (j + 1)
      else j)"
  by pat_completeness auto
termination
  by (relation "measure (\<lambda>(lines, d, j). length lines - j)") auto

declare find_end.simps [simp del]

lemma find_end_ge: "j \<le> find_end lines d j"
proof (induction lines d j rule: find_end.induct)
  case (1 lines d j)
  show ?case
  proof (cases "j < length lines \<and> d > 0")
    case True
    from 1 [OF True] have "j + 1 \<le> find_end lines (count_line d (lines ! j)) (j + 1)" .
    moreover from True
    have "find_end lines d j = find_end lines (count_line d (lines ! j)) (j + 1)"
      by (subst find_end.simps) simp
    ultimately show ?thesis by simp
  next
    case False
    then have "find_end lines d j = j" by (subst find_end.simps) auto
    then show ?thesis by simp
  qed
qed

text \<open>The depth reached after the lines \<open>j, \<dots>, k - 1\<close> (counted from 0), when the
  depth before line \<open>j\<close> is \<open>d\<close>.\<close>

definition depth_after :: "string list \<Rightarrow> int \<Rightarrow> nat \<Rightarrow> nat \<Rightarrow> int" where
  "depth_after lines d j k = foldl count_line d (take (k - j) (drop j lines))"

definition is_brace :: "char \<Rightarrow> bool" where
  "is_brace c = (c = CHR ''{'' \<or> c = CHR ''}'')"

text \<open>The outer \<open>while i < len(lines)\<close> loop. The source reports a method when its
  line count exceeds 50; the bound is the parameter \<open>thr\<close> here, so that the same
  loop with \<open>thr = 0\<close> lists every span the scan detects.\<close>

function scan_methods :: "nat \<Rightarrow> string list \<Rightarrow> nat \<Rightarrow> MethodInfo list" where
  "scan_methods thr lines i =
     (if i < length lines then
        (case re_match method_pattern (lines ! i) of
           Some m \<Rightarrow>
             (let start = i + 1;
                  j = find_end lines 1 (i + 1);
                  cnt = j - start + 1
              in (if cnt > thr
                  then [\<lparr>method_name = fst m, start_line = start, end_line = j, line_count = cnt\<rparr>]
                  else []) @ scan_methods thr lines j)
         | None \<Rightarrow> scan_methods thr lines (i + 1))
      else [])"
  by pat_completeness auto
termination
proof (relation "measure (\<lambda>(thr, lines, i). length lines - i)", goal_cases)
  case 1
  show ?case by simp
next
  case 2
  then show ?case by simp
next
  case (3 thr lines i m start j cnt)
  have "Suc i \<le> find_end lines 1 (Suc i)" by (rule find_end_ge)
  with 3 show ?case by simp
qed

declare scan_methods.simps [simp del]

text \<open>\<open>f.readlines()\<close>: the text cut after every newline, each line keeping its
  newline.\<close>

fun readlines_acc :: "string \<Rightarrow> string \<Rightarrow> string list" where
  "readlines_acc acc [] = (if acc = [] then [] else [rev acc])"
| "readlines_acc acc (c # cs) =
     (if c = CHR 0x0A then rev (c # acc) # readlines_acc [] cs else readlines_acc (c # acc) cs)"

definition readlines :: "string \<Rightarrow> string list" where
  "readlines s = readlines_acc [] s"

text \<open>\<open>analyze_method_sizes\<close>: a file that cannot be opened (\<open>None\<close>) gives the
  empty list.\<close>

definition analyze_method_sizes :: "string option \<Rightarrow> MethodInfo list" where
  "analyze_method_sizes file =
     (case file of None \<Rightarrow> [] | Some content \<Rightarrow> scan_methods 50 (readlines content) 0)"

section \<open>File and method sizes of a project (analyze\_project.py)\<close>

datatype error = IoError string

definition starts_with :: "string \<Rightarrow> string \<Rightarrow> bool" where
  "starts_with p s = (take (length p) s = p)"

definition ends_with :: "string \<Rightarrow> string \<Rightarrow> bool" where
  "ends_with p s = (length p \<le> length s \<and> drop (length s - length p) s = p)"

text \<open>\<open>sub in s\<close> on strings: \<open>sub\<close> occurs in \<open>s\<close> as a contiguous piece.\<close>

fun contains :: "string \<Rightarrow> string \<Rightarrow> bool" where
  "contains sub [] = (sub = [])"
| "contains sub (c # cs) = (starts_with sub (c # cs) \<or> contains sub cs)"

definition strip :: "string \<Rightarrow> string" where
  "strip s = rev (dropWhile is_space (rev (dropWhile is_space s)))"

text \<open>\<open>content.split('\n')\<close>: the pieces between newlines, at least one.\<close>

fun split_nl_acc :: "string \<Rightarrow> string \<Rightarrow> string list" where
  "split_nl_acc acc [] = [rev acc]"
| "split_nl_acc acc (c # cs) =
     (if c = CHR 0x0A then rev acc # split_nl_acc [] cs else split_nl_acc (c # acc) cs)"

definition split_nl :: "string \<Rightarrow> string list" where
  "split_nl s = split_nl_acc [] s"

record file_violation =
  fv_file :: string
  fv_lines :: int
  fv_excess :: int

record method_violation =
  mv_file :: string
  mv_method :: "string option"
  mv_lines :: int
  mv_start_line :: int
  mv_end_line :: int

text \<open>The analyzer object: the four counters of \<open>stats\<close> and the two lists of
  \<open>violations\<close>.\<close>

record analyzer =
  total_files :: int
  files_over_500 :: int
  methods_over_50 :: int
  total_lines :: int
  v_files_over_500 :: "file_violation list"
  v_methods_over_50 :: "method_violation list"

definition new_analyzer :: analyzer where
  "new_analyzer = \<lparr>total_files = 0, files_over_500 = 0, methods_over_50 = 0, total_lines = 0,
     v_files_over_500 = [], v_methods_over_50 = []\<rparr>"

text \<open>\<open>is_excluded\<close>, on the path relative to the project root, written with \<open>/\<close>.\<close>

definition basename :: "string \<Rightarrow> string" where
  "basename p = rev (takeWhile (\<lambda>c. c \<noteq> CHR ''/'') (rev p))"

definition generated_patterns :: "string list" where
  "generated_patterns = [''lib/l10n/'', ''lib/generated/'', ''lib/.dart_tool/'',
     ''test/.dart_tool/'',
     ''test/domain/services/persistence/unified_persistence_service_test.dart'']"

definition is_excluded :: "string \<Rightarrow> bool" where
  "is_excluded relative =
     (let filename = basename relative in
      if list_ex (\<lambda>e. ends_with e filename)
           [''.g.dart'', ''.freezed.dart'', ''.mocks.dart'', ''_config.dart''] then True
      else if list_ex (\<lambda>p. starts_with p relative) generated_patterns then True
      else if contains ''/regression/'' relative \<and> ends_with ''.dart'' filename then True
      else False)"

text \<open>The \<open>method_pattern\<close> of \<open>analyze_methods\<close>.\<close>

definition project_method_pattern :: rx where
  "project_method_pattern = seqs [
     star is_space,
     plus (\<lambda>c. is_word c \<or> c = CHR ''<'' \<or> c = CHR ''>'' \<or> c = CHR ''?'' \<or> c = CHR '',''
                 \<or> is_space c),
     plus is_space,
     grp (plus is_word),
     star is_space,
     lit ''('', star (\<lambda>c. c \<noteq> CHR '')''), lit '')'',
     star is_space, opt (alts [lit ''async'', lit ''sync*'']), star is_space, lit ''{'']"

text \<open>\<open>line.count('{') - line.count('}')\<close>.\<close>

definition brace_delta :: "string \<Rightarrow> int" where
  "brace_delta line = int (count_list line (CHR ''{'')) - int (count_list line (CHR ''}''))"

text \<open>The local variables of \<open>analyze_methods\<close>.\<close>

record method_scan =
  in_method :: bool
  cur_method :: "string option"
  method_start :: int
  brace_count :: int

text \<open>The \<open>for i, line in enumerate(lines, 1)\<close> loop of \<open>analyze_methods\<close>, giving
  the violations it appends; \<open>thr\<close> stands for the bound 50 of the source.\<close>

fun methods_loop ::
  "int \<Rightarrow> string \<Rightarrow> method_scan \<Rightarrow> int \<Rightarrow> string list \<Rightarrow> method_violation list" where
  "methods_loop thr file st i [] = []"
| "methods_loop thr file st i (line # rest) =
     (let stripped = strip line in
      if stripped = [] \<or> starts_with ''//'' stripped \<or> starts_with ''/*'' stripped
      then methods_loop thr file st (i + 1) rest
      else
        (let m = re_match project_method_pattern line in
         if m \<noteq> None \<and> \<not> in_method st
         then methods_loop thr file
                \<lparr>in_method = True, cur_method = map_option fst m, method_start = i,
                 brace_count = brace_delta line\<rparr> (i + 1) rest
         else if in_method st
         then
           (let bc = brace_count st + brace_delta line in
            if bc = 0
            then
              (let method_length = i - method_start st + 1 in
               (if method_length > thr
                then [\<lparr>mv_file = file, mv_method = cur_method st, mv_lines = method_length,
                       mv_start_line = method_start st, mv_end_line = i\<rparr>]
                else [])
               @ methods_loop thr file
                   \<lparr>in_method = False, cur_method = None, method_start = method_start st,
                    brace_count = 0\<rparr> (i + 1) rest)
            else methods_loop thr file (st\<lparr>brace_count := bc\<rparr>) (i + 1) rest)
         else methods_loop thr file st (i + 1) rest))"

definition scan_start :: method_scan where
  "scan_start = \<lparr>in_method = False, cur_method = None, method_start = 0, brace_count = 0\<rparr>"

definition analyze_methods :: "string \<Rightarrow> string list \<Rightarrow> method_violation list" where
  "analyze_methods file lines = methods_loop 50 file scan_start 1 lines"

text \<open>\<open>analyze_file\<close>. The file system is a map from paths to texts; a path without
  a text cannot be opened, and \<open>open\<close> raises there. The function has no handler, so the
  error is its result.\<close>

definition analyze_file :: "(string \<rightharpoonup> string) \<Rightarrow> string \<Rightarrow> analyzer \<Rightarrow> error + analyzer" where
  "analyze_file fs file_path a =
     (if is_excluded file_path then Inr a
      else
        (case fs file_path of
           None \<Rightarrow> Inl (IoError file_path)
         | Some content \<Rightarrow>
             (let lines = split_nl content;
                  line_count = int (length lines);
                  a1 = a\<lparr>total_files := total_files a + 1,
                         total_lines := total_lines a + line_count\<rparr>;
                  a2 = (if line_count > 500
                        then a1\<lparr>files_over_500 := files_over_500 a1 + 1,
                                v_files_over_500 := v_files_over_500 a1 @
                                  [\<lparr>fv_file = file_path, fv_lines = line_count,
                                    fv_excess = line_count - 500\<rparr>]\<rparr>
                        else a1);
                  ms = analyze_methods file_path lines
              in Inr (a2\<lparr>methods_over_50 := methods_over_50 a2 + int (length ms),
                         v_methods_over_50 := v_methods_over_50 a2 @ ms\<rparr>))))"

text \<open>\<open>analyze_project\<close>: the files under \<open>lib\<close>, then those under \<open>test\<close>, one
  after the other; an error raised for one file ends the loop.\<close>

fun analyze_files :: "(string \<rightharpoonup> string) \<Rightarrow> string list \<Rightarrow> analyzer \<Rightarrow> error + analyzer" where
  "analyze_files fs [] a = Inr a"
| "analyze_files fs (f # rest) a =
     (case analyze_file fs f a of Inl e \<Rightarrow> Inl e | Inr a' \<Rightarrow> analyze_files fs rest a')"

definition analyze_project ::
  "(string \<rightharpoonup> string) \<Rightarrow> string list \<Rightarrow> string list \<Rightarrow> error + analyzer" where
  "analyze_project fs lib_dart test_dart = analyze_files fs (lib_dart @ test_dart) new_analyzer"

text \<open>The impact scores of \<open>generate_report\<close>: \<open>file_scores\<close> is a dictionary from
  files to entries, kept in insertion order.\<close>

datatype violation_note = FileTooBig int | MethodTooLong "string option" int

record score_entry =
  score :: int
  se_violations :: "violation_note list"
  se_lines :: int

definition empty_entry :: score_entry where
  "empty_entry = \<lparr>score = 0, se_violations = [], se_lines = 0\<rparr>"

fun dict_get :: "('k \<times> 'v) list \<Rightarrow> 'k \<Rightarrow> 'v \<Rightarrow> 'v" where
  "dict_get [] k dflt = dflt"
| "dict_get ((k', v) # d) k dflt = (if k' = k then v else dict_get d k dflt)"

fun dict_put :: "('k \<times> 'v) list \<Rightarrow> 'k \<Rightarrow> 'v \<Rightarrow> ('k \<times> 'v) list" where
  "dict_put [] k v = [(k, v)]"
| "dict_put ((k', v') # d) k v = (if k' = k then (k, v) # d else (k', v') # dict_put d k v)"

fun score_files :: "file_violation list \<Rightarrow> (string \<times> score_entry) list \<Rightarrow> (string \<times> score_entry) list" where
  "score_files [] d = d"
| "score_files (v # vs) d =
     (let e = dict_get d (fv_file v) empty_entry;
          e' = e\<lparr>score := score e + (fv_excess v div 100) * 10,
                 se_violations := se_violations e @ [FileTooBig (fv_lines v)],
                 se_lines := fv_lines v\<rparr>
      in score_files vs (dict_put d (fv_file v) e'))"

fun score_methods :: "method_violation list \<Rightarrow> (string \<times> score_entry) list \<Rightarrow> (string \<times> score_entry) list" where
  "score_methods [] d = d"
| "score_methods (v # vs) d =
     (let e = dict_get d (mv_file v) empty_entry;
          e' = e\<lparr>score := score e + (mv_lines v - 50) div 10,
                 se_violations := se_violations e @ [MethodTooLong (mv_method v) (mv_lines v)]\<rparr>
      in score_methods vs (dict_put d (mv_file v) e'))"

definition file_scores :: "analyzer \<Rightarrow> (string \<times> score_entry) list" where
  "file_scores a = score_methods (v_methods_over_50 a) (score_files (v_files_over_500 a) [])"

text \<open>The rows of the ranking table: the entries by descending score, the first 20.\<close>

definition sorted_files :: "analyzer \<Rightarrow> (string \<times> score_entry) list" where
  "sorted_files a = take 20 (sort_key (\<lambda>x. - score (snd x)) (file_scores a))"

section \<open>Dead code and duplications (analyze\_dead\_code.py)\<close>

text \<open>\<open>re.finditer(p, s)\<close>, as the list of the texts of group 1: the leftmost match,
  then the matches of the rest behind it. None of the patterns below matches the empty
  text; after an empty match the search moves on by one character.\<close>

function finditer :: "rx \<Rightarrow> string \<Rightarrow> string list" where
  "finditer p s =
     (case re_match p s of
        Some m \<Rightarrow>
          (if length (snd m) < length s then fst m # finditer p (snd m)
           else (case s of [] \<Rightarrow> [fst m] | c # cs \<Rightarrow> fst m # finditer p cs))
      | None \<Rightarrow> (case s of [] \<Rightarrow> [] | c # cs \<Rightarrow> finditer p cs))"
  by pat_completeness auto
termination
  by (relation "measure (\<lambda>(p, s). length s)") auto

declare finditer.simps [simp del]

definition is_quote :: "char \<Rightarrow> bool" where
  "is_quote c = (c = CHR 0x27 \<or> c = CHR 0x22)"

definition import_pattern :: rx where
  "import_pattern = seqs [lit ''import'', plus is_space, chr is_quote,
     grp (plus (\<lambda>c. \<not> is_quote c)), chr is_quote]"

definition export_pattern :: rx where
  "export_pattern = seqs [lit ''export'', plus is_space, chr is_quote,
     grp (plus (\<lambda>c. \<not> is_quote c)), chr is_quote]"

text \<open>The pattern of class definitions; \<open>class_tail\<close> is its last, non-capturing
  group.\<close>

definition class_tail :: rx where
  "class_tail = alts [seqs [plus is_space, lit ''extends''],
                      seqs [plus is_space, lit ''implements''],
                      seqs [plus is_space, lit ''with''],
                      seqs [star is_space, lit ''{'']]"

definition class_pattern :: rx where
  "class_pattern = seqs [lit ''class'', plus is_space, grp (plus is_word), class_tail]"

definition func_pattern :: rx where
  "func_pattern = grp (seqs [
     alts [lit ''Future'', lit ''void'', lit ''int'', lit ''String'', lit ''bool'',
           lit ''List'', lit ''Map'', lit ''dynamic''],
     plus is_space, plus is_word, star is_space,
     lit ''('', star (\<lambda>c. c \<noteq> CHR '')''), lit '')''])"

text \<open>\<open>re.search(r'\b' + name + r'\b', content)\<close>. A word boundary lies between two
  neighbours of which exactly one is a word character; the start and the end of the text
  count as non-word neighbours. \<open>prev\<close> is the character before the position.\<close>

definition wordy :: "char option \<Rightarrow> bool" where
  "wordy c = (case c of None \<Rightarrow> False | Some x \<Rightarrow> is_word x)"

definition boundary :: "char option \<Rightarrow> char option \<Rightarrow> bool" where
  "boundary a b = (wordy a \<noteq> wordy b)"

definition first_char :: "string \<Rightarrow> char option" where
  "first_char s = (case s of [] \<Rightarrow> None | c # _ \<Rightarrow> Some c)"

definition word_here :: "char option \<Rightarrow> string \<Rightarrow> string \<Rightarrow> bool" where
  "word_here prev name s =
     (boundary prev (first_char s) \<and> starts_with name s
      \<and> boundary (if name = [] then prev else Some (last name))
                  (first_char (drop (length name) s)))"

fun word_from :: "char option \<Rightarrow> string \<Rightarrow> string \<Rightarrow> bool" where
  "word_from prev name [] = word_here prev name []"
| "word_from prev name (c # cs) = (word_here prev name (c # cs) \<or> word_from (Some c) name cs)"

definition has_word :: "string \<Rightarrow> string \<Rightarrow> bool" where
  "has_word name content = word_from None name content"

text \<open>\<open>re.sub(r'\s+', ' ', signature)\<close>.\<close>

function collapse_ws :: "string \<Rightarrow> string" where
  "collapse_ws [] = []"
| "collapse_ws (c # cs) =
     (if is_space c then CHR '' '' # collapse_ws (dropWhile is_space cs) else c # collapse_ws cs)"
  by pat_completeness auto
termination
  by (relation "measure length") (auto simp: less_Suc_eq_le length_dropWhile_le)

text \<open>A \<open>defaultdict(list)\<close>, with its keys in insertion order.\<close>

fun dict_append :: "('k \<times> 'v list) list \<Rightarrow> 'k \<Rightarrow> 'v \<Rightarrow> ('k \<times> 'v list) list" where
  "dict_append [] k v = [(k, [v])]"
| "dict_append ((k', vs) # d) k v =
     (if k' = k then (k', vs @ [v]) # d else (k', vs) # dict_append d k v)"

text \<open>The analyzer object. \<open>imports\<close> and \<open>exports\<close> map a file to a set of texts: they
  are kept as the set of pairs of a file and a text. \<open>class_usages\<close> is a
  \<open>defaultdict(int)\<close>. Paths are relative to the project root and written with \<open>/\<close>.\<close>

record dead_code =
  lib_files :: "string list"
  test_files :: "string list"
  "imports" :: "(string \<times> string) set"
  exports :: "(string \<times> string) set"
  class_definitions :: "(string \<times> string list) list"
  class_usages :: "string \<Rightarrow> int"

text \<open>The analyzer after \<open>scan_files\<close> has found the given files.\<close>

definition scanned :: "string list \<Rightarrow> string list \<Rightarrow> dead_code" where
  "scanned lib test = \<lparr>lib_files = lib, test_files = test, imports = {}, exports = {},
     class_definitions = [], class_usages = (\<lambda>_. 0)\<rparr>"

definition recorded_import :: "string \<Rightarrow> bool" where
  "recorded_import import_path =
     (\<not> starts_with ''package:flutter'' import_path \<and> \<not> starts_with ''dart:'' import_path)"

text \<open>The body of the loop of \<open>analyze_imports_exports\<close> for one file. A file that
  cannot be opened raises inside the \<open>try\<close>, and the handler passes: nothing changes.\<close>

definition scan_file :: "(string \<rightharpoonup> string) \<Rightarrow> string \<Rightarrow> dead_code \<Rightarrow> dead_code" where
  "scan_file fs file_path st =
     (case fs file_path of
        None \<Rightarrow> st
      | Some content \<Rightarrow>
          (let st1 = st\<lparr>imports := imports st \<union>
                 Pair file_path ` set (filter recorded_import (finditer import_pattern content))\<rparr>;
               st2 = st1\<lparr>exports := exports st1 \<union>
                 Pair file_path ` set (finditer export_pattern content)\<rparr>;
               st3 = st2\<lparr>class_definitions :=
                 foldl (\<lambda>d class_name. dict_append d class_name file_path)
                   (class_definitions st2) (finditer class_pattern content)\<rparr>
           in st3\<lparr>class_usages :=
                 foldl (\<lambda>u class_name. if has_word class_name content
                                         then u(class_name := u class_name + 1) else u)
                   (class_usages st3) (map fst (class_definitions st3))\<rparr>))"

definition analyze_imports_exports :: "(string \<rightharpoonup> string) \<Rightarrow> dead_code \<Rightarrow> dead_code" where
  "analyze_imports_exports fs st =
     foldl (\<lambda>s file_path. scan_file fs file_path s) st (lib_files st @ test_files st)"

text \<open>\<open>find_unused_files\<close>.\<close>

definition all_imports :: "dead_code \<Rightarrow> string set" where
  "all_imports st = snd ` imports st"

definition forward_slashes :: "string \<Rightarrow> string" where
  "forward_slashes p = map (\<lambda>c. if c = CHR 0x5C then CHR ''/'' else c) p"

fun unused_files_loop :: "string set \<Rightarrow> string list \<Rightarrow> string list" where
  "unused_files_loop imps [] = []"
| "unused_files_loop imps (file_path # rest) =
     (if contains ''.g.dart'' file_path \<or> contains ''.mocks.dart'' file_path
      then unused_files_loop imps rest
      else if contains ''export.dart'' file_path then unused_files_loop imps rest
      else if ends_with ''main.dart'' file_path then unused_files_loop imps rest
      else
        (let file_name = basename file_path;
             is_imported = (\<exists>imp \<in> imps. contains file_name imp
                                \<or> contains (forward_slashes file_path) imp)
         in if \<not> is_imported then file_path # unused_files_loop imps rest
            else unused_files_loop imps rest))"

definition find_unused_files :: "dead_code \<Rightarrow> string list" where
  "find_unused_files st = unused_files_loop (all_imports st) (lib_files st)"

text \<open>\<open>find_unused_classes\<close>.\<close>

record unused_class =
  uc_class :: string
  uc_defined_in :: "string list"
  uc_usage_count :: int

definition unused_classes :: "dead_code \<Rightarrow> unused_class list" where
  "unused_classes st =
     concat (map (\<lambda>(class_name, files).
        (let usage_count = class_usages st class_name in
         if usage_count \<le> 1
         then [\<lparr>uc_class = class_name, uc_defined_in = files, uc_usage_count = usage_count\<rparr>]
         else [])) (class_definitions st))"

definition find_unused_classes :: "dead_code \<Rightarrow> unused_class list" where
  "find_unused_classes st = sort_key uc_usage_count (unused_classes st)"

text \<open>\<open>find_duplications\<close>: the dictionary of signatures, the list \<open>duplicates\<close>, and
  the result.\<close>

record duplicate =
  dup_signature :: string
  dup_files :: "string set"
  dup_count :: int

definition file_signatures :: "string \<Rightarrow> string list" where
  "file_signatures content = map (\<lambda>g. collapse_ws (strip g)) (finditer func_pattern content)"

definition add_signatures ::
  "(string \<rightharpoonup> string) \<Rightarrow> (string \<times> string list) list \<Rightarrow> string \<Rightarrow> (string \<times> string list) list" where
  "add_signatures fs signatures file_path =
     (case fs file_path of
        None \<Rightarrow> signatures
      | Some content \<Rightarrow>
          foldl (\<lambda>d normalized. dict_append d normalized file_path) signatures
            (file_signatures content))"

definition signature_table :: "(string \<rightharpoonup> string) \<Rightarrow> dead_code \<Rightarrow> (string \<times> string list) list" where
  "signature_table fs st = foldl (add_signatures fs) [] (lib_files st @ test_files st)"

definition duplicates :: "(string \<rightharpoonup> string) \<Rightarrow> dead_code \<Rightarrow> duplicate list" where
  "duplicates fs st =
     concat (map (\<lambda>(sig, files).
        if length files > 2 \<and> length sig > 30
        then [\<lparr>dup_signature = sig, dup_files = set files, dup_count = int (length files)\<rparr>]
        else []) (signature_table fs st))"

definition find_duplications :: "(string \<rightharpoonup> string) \<Rightarrow> dead_code \<Rightarrow> duplicate list" where
  "find_duplications fs st = take 30 (sort_key (\<lambda>x. - dup_count x) (duplicates fs st))"

section \<open>Properties of the method scans\<close>

lemma find_end_step:
  "j < length lines \<Longrightarrow> d > 0 \<Longrightarrow>
   find_end lines d j = find_end lines (count_line d (lines ! j)) (Suc j)"
  by (subst find_end.simps) simp

lemma find_end_stop: "\<not> (j < length lines \<and> d > 0) \<Longrightarrow> find_end lines d j = j"
  by (subst find_end.simps) auto

lemma find_end_le: "find_end lines d j \<le> max j (length lines)"
proof (induction lines d j rule: find_end.induct)
  case (1 lines d j)
  show ?case
  proof (cases "j < length lines \<and> d > 0")
    case True
    from 1 [OF True]
    have "find_end lines (count_line d (lines ! j)) (j + 1) \<le> max (j + 1) (length lines)" .
    with True show ?thesis by (simp add: find_end_step)
  next
    case False
    then show ?thesis by (simp add: find_end_stop)
  qed
qed

lemma find_end_gt: "j < length lines \<Longrightarrow> d > 0 \<Longrightarrow> j < find_end lines d j"
  using find_end_ge [of "Suc j" lines "count_line d (lines ! j)"] by (simp add: find_end_step)

lemma scan_methods_ordered:
  "(\<forall>m \<in> set (scan_methods thr lines i). i < start_line m \<and> start_line m \<le> end_line m)
   \<and> sorted_wrt (\<lambda>a b. end_line a < start_line b) (scan_methods thr lines i)"
proof (induction thr lines i rule: scan_methods.induct)
  case (1 thr lines i)
  show ?case
  proof (cases "i < length lines")
    case False
    then show ?thesis by (subst (1 2) scan_methods.simps) simp
  next
    case True
    show ?thesis
    proof (cases "re_match method_pattern (lines ! i)")
      case None
      from 1(1) [OF True None] True None show ?thesis
        by (subst (1 2) scan_methods.simps) (auto simp: less_Suc_eq)
    next
      case (Some m)
      define j where "j = find_end lines 1 (i + 1)"
      have ge: "i + 1 \<le> j" unfolding j_def by (rule find_end_ge)
      from 1(2) [OF True Some refl refl refl]
      have ih: "(\<forall>m \<in> set (scan_methods thr lines j). j < start_line m \<and> start_line m \<le> end_line m)
         \<and> sorted_wrt (\<lambda>a b. end_line a < start_line b) (scan_methods thr lines j)"
        unfolding j_def by simp
      have eq: "scan_methods thr lines i =
         (if j - (i + 1) + 1 > thr
          then [\<lparr>method_name = fst m, start_line = i + 1, end_line = j, line_count = j - (i + 1) + 1\<rparr>]
          else []) @ scan_methods thr lines j"
        using True Some unfolding j_def by (subst scan_methods.simps) (simp add: Let_def)
      show ?thesis unfolding eq using ih ge by (auto simp: sorted_wrt_append)
    qed
  qed
qed

text \<open>The invariant of the loop of \<open>analyze_methods\<close>: every span still to be reported
  ends at or after the current line, starts at the open method's first line or later, and
  the spans follow one another.\<close>

definition loop_ok :: "method_scan \<Rightarrow> int \<Rightarrow> method_violation list \<Rightarrow> bool" where
  "loop_ok st i vs =
     ((\<forall>v \<in> set vs. mv_start_line v \<le> mv_end_line v \<and> i \<le> mv_end_line v
          \<and> (if in_method st then method_start st \<le> mv_start_line v else i \<le> mv_start_line v))
      \<and> sorted_wrt (\<lambda>a b. mv_end_line a < mv_start_line b) vs)"

lemma loop_ok_skip:
  "loop_ok st (i + 1) vs \<Longrightarrow> in_method st' = in_method st \<Longrightarrow> method_start st' = method_start st
   \<Longrightarrow> loop_ok st' i vs"
  by (auto simp: loop_ok_def split: if_splits)

lemma loop_ok_open:
  "loop_ok st (i + 1) vs \<Longrightarrow> in_method st \<Longrightarrow> method_start st = i \<Longrightarrow> \<not> in_method st'
   \<Longrightarrow> loop_ok st' i vs"
  by (auto simp: loop_ok_def split: if_splits)

lemma loop_ok_close:
  "loop_ok st' (i + 1) vs \<Longrightarrow> \<not> in_method st' \<Longrightarrow> method_start st \<le> i \<Longrightarrow> in_method st
   \<Longrightarrow> loop_ok st i ((if c then [\<lparr>mv_file = f, mv_method = n, mv_lines = l,
          mv_start_line = method_start st, mv_end_line = i\<rparr>] else []) @ vs)"
  by (auto simp: loop_ok_def sorted_wrt_append split: if_splits)

lemma methods_loop_ok:
  "in_method st \<longrightarrow> method_start st \<le> i \<Longrightarrow> loop_ok st i (methods_loop thr f st i ls)"
proof (induction ls arbitrary: st i)
  case Nil
  show ?case by (simp add: loop_ok_def)
next
  case (Cons line rest)
  let ?opened = "\<lparr>in_method = True,
      cur_method = map_option fst (re_match project_method_pattern line),
      method_start = i, brace_count = brace_delta line\<rparr>"
  let ?closed = "\<lparr>in_method = False, cur_method = None, method_start = method_start st,
      brace_count = 0\<rparr>"
  let ?cont = "st\<lparr>brace_count := brace_count st + brace_delta line\<rparr>"
  have a: "loop_ok st (i + 1) (methods_loop thr f st (i + 1) rest)"
    using Cons.prems by (intro Cons.IH) auto
  have b: "loop_ok ?opened (i + 1) (methods_loop thr f ?opened (i + 1) rest)"
    by (intro Cons.IH) auto
  have c: "loop_ok ?closed (i + 1) (methods_loop thr f ?closed (i + 1) rest)"
    by (intro Cons.IH) auto
  have d: "loop_ok ?cont (i + 1) (methods_loop thr f ?cont (i + 1) rest)"
    using Cons.prems by (intro Cons.IH) auto
  show ?case
    using loop_ok_skip [OF a, of st] loop_ok_open [OF b, of st]
      loop_ok_close [OF c, of st] loop_ok_skip [OF d, of st] Cons.prems
    by (simp add: Let_def)
qed

lemma count_line_nonneg: "0 < d \<Longrightarrow> 0 \<le> count_line d l"
  by (induction l arbitrary: d) auto

lemma depth_after_self: "depth_after lines d j j = d"
  by (simp add: depth_after_def)

lemma depth_after_step:
  "j < length lines \<Longrightarrow> j < k \<Longrightarrow>
   depth_after lines d j k = depth_after lines (count_line d (lines ! j)) (Suc j) k"
proof -
  assume a: "j < length lines" "j < k"
  then obtain n where n: "k - j = Suc n" by (cases "k - j") auto
  then have "k - Suc j = n" by simp
  with a n show ?thesis
    by (simp add: depth_after_def Cons_nth_drop_Suc [symmetric])
qed

lemma find_end_depth:
  "0 < d \<Longrightarrow> j \<le> length lines \<Longrightarrow>
   (\<forall>k. j \<le> k \<and> k < find_end lines d j \<longrightarrow> 0 < depth_after lines d j k)
   \<and> find_end lines d j \<le> length lines
   \<and> (find_end lines d j < length lines \<longrightarrow> depth_after lines d j (find_end lines d j) = 0)"
proof (induction lines d j rule: find_end.induct)
  case (1 lines d j)
  show ?case
  proof (cases "j < length lines")
    case False
    with 1(3) have "find_end lines d j = j" by (simp add: find_end_stop)
    with False 1(3) show ?thesis by simp
  next
    case True
    let ?d' = "count_line d (lines ! j)"
    have step: "find_end lines d j = find_end lines ?d' (Suc j)"
      using True 1(2) by (simp add: find_end_step)
    show ?thesis
    proof (cases "0 < ?d'")
      case pos: True
      from 1(1) [OF _ pos] True 1(2)
      have ih: "(\<forall>k. Suc j \<le> k \<and> k < find_end lines ?d' (Suc j) \<longrightarrow> 0 < depth_after lines ?d' (Suc j) k)
        \<and> find_end lines ?d' (Suc j) \<le> length lines
        \<and> (find_end lines ?d' (Suc j) < length lines \<longrightarrow>
             depth_after lines ?d' (Suc j) (find_end lines ?d' (Suc j)) = 0)"
        by simp
      have gt: "j < find_end lines d j" using True 1(2) by (rule find_end_gt)
      show ?thesis
      proof (intro conjI allI impI)
        fix k assume k: "j \<le> k \<and> k < find_end lines d j"
        show "0 < depth_after lines d j k"
        proof (cases "k = j")
          case True
          then show ?thesis using 1(2) by (simp add: depth_after_self)
        next
          case False
          with k have "j < k" by simp
          with k ih True show ?thesis by (simp add: depth_after_step step)
        qed
      next
        show "find_end lines d j \<le> length lines" using ih by (simp add: step)
      next
        assume "find_end lines d j < length lines"
        with ih gt True show "depth_after lines d j (find_end lines d j) = 0"
          by (simp add: depth_after_step step [symmetric])
      qed
    next
      case False
      then have z: "?d' = 0" using count_line_nonneg [OF 1(2), of "lines ! j"] by simp
      have e: "find_end lines d j = Suc j" using z by (simp add: step find_end_stop)
      show ?thesis
      proof (intro conjI allI impI)
        fix k assume "j \<le> k \<and> k < find_end lines d j"
        with e have "k = j" by simp
        then show "0 < depth_after lines d j k" using 1(2) by (simp add: depth_after_self)
      next
        show "find_end lines d j \<le> length lines" using e True by simp
      next
        show "depth_after lines d j (find_end lines d j) = 0"
          using True z by (simp add: e depth_after_step depth_after_self)
      qed
    qed
  qed
qed

lemma find_end_cong:
  "length ls = length ls' \<Longrightarrow>
   (\<And>k d. j \<le> k \<Longrightarrow> k < length ls \<Longrightarrow> count_line d (ls ! k) = count_line d (ls' ! k)) \<Longrightarrow>
   find_end ls d j = find_end ls' d j"
proof (induction ls d j rule: find_end.induct)
  case (1 lines d j)
  show ?case
  proof (cases "j < length lines \<and> 0 < d")
    case True
    then have "find_end lines (count_line d (lines ! j)) (j + 1) = find_end ls' (count_line d (lines ! j)) (j + 1)"
      using 1(2,3) by (intro 1(1)) auto
    moreover have "count_line d (lines ! j) = count_line d (ls' ! j)" using True 1(3) by simp
    ultimately show ?thesis using True 1(2) by (simp add: find_end_step)
  next
    case False
    then show ?thesis using 1(2) by (simp add: find_end_stop)
  qed
qed

lemma count_line_braces: "count_line d (filter is_brace l) = count_line d l"
  by (induction l arbitrary: d) (auto simp: is_brace_def)

lemma brace_delta_braces: "brace_delta (filter is_brace l) = brace_delta l"
  by (induction l) (auto simp: is_brace_def brace_delta_def)

text \<open>
  Claim C2. In both scans every span ends at or after the line where it starts, and the
  spans of one file are listed so that each one ends before the next one starts: they
  are disjoint and in increasing order of start line. This holds for the spans the scans
  detect (\<open>thr = 0\<close>) and for those they report (\<open>thr = 50\<close>).
\<close>

theorem spans_ordered_disjoint:
  "(\<forall>m \<in> set (scan_methods thr lines 0). start_line m \<le> end_line m)
   \<and> sorted_wrt (\<lambda>a b. end_line a < start_line b) (scan_methods thr lines 0)
   \<and> (\<forall>v \<in> set (methods_loop t file scan_start 1 ls). mv_start_line v \<le> mv_end_line v)
   \<and> sorted_wrt (\<lambda>a b. mv_end_line a < mv_start_line b) (methods_loop t file scan_start 1 ls)"
proof -
  have "loop_ok scan_start 1 (methods_loop t file scan_start 1 ls)"
    by (rule methods_loop_ok) (simp add: scan_start_def)
  then show ?thesis
    using scan_methods_ordered [of thr lines 0] by (simp add: loop_ok_def)
qed

theorem spans_ordered_disjoint_witness:
  "scan_methods 0 [''void f() {\<newline>'', ''}\<newline>'', ''int g() {\<newline>'', ''  return 1;\<newline>'', ''}\<newline>''] 0
     = [\<lparr>method_name = ''f'', start_line = 1, end_line = 2, line_count = 2\<rparr>,
        \<lparr>method_name = ''g'', start_line = 3, end_line = 5, line_count = 3\<rparr>]
   \<and> methods_loop 0 ''a.dart'' scan_start 1 [''void f() {'', ''}'', ''int g() {'', ''  return 1;'', ''}'']
     = [\<lparr>mv_file = ''a.dart'', mv_method = Some ''f'', mv_lines = 2, mv_start_line = 1, mv_end_line = 2\<rparr>,
        \<lparr>mv_file = ''a.dart'', mv_method = Some ''g'', mv_lines = 3, mv_start_line = 3, mv_end_line = 5\<rparr>]
   \<and> list_all (\<lambda>m. start_line m \<le> end_line m)
        (scan_methods 0 [''void f() {\<newline>'', ''}\<newline>'', ''int g() {\<newline>'', ''  return 1;\<newline>'', ''}\<newline>''] 0)
   \<and> sorted_wrt (\<lambda>a b. end_line a < start_line b)
        (scan_methods 0 [''void f() {\<newline>'', ''}\<newline>'', ''int g() {\<newline>'', ''  return 1;\<newline>'', ''}\<newline>''] 0)
   \<and> list_all (\<lambda>v. mv_start_line v \<le> mv_end_line v)
        (methods_loop 0 ''a.dart'' scan_start 1
           [''void f() {'', ''}'', ''int g() {'', ''  return 1;'', ''}''])
   \<and> sorted_wrt (\<lambda>a b. mv_end_line a < mv_start_line b)
        (methods_loop 0 ''a.dart'' scan_start 1
           [''void f() {'', ''}'', ''int g() {'', ''  return 1;'', ''}''])"
proof -
  have e1: "scan_methods 0 [''void f() {\<newline>'', ''}\<newline>'', ''int g() {\<newline>'', ''  return 1;\<newline>'', ''}\<newline>''] 0
     = [\<lparr>method_name = ''f'', start_line = 1, end_line = 2, line_count = 2\<rparr>,
        \<lparr>method_name = ''g'', start_line = 3, end_line = 5, line_count = 3\<rparr>]"
    by code_simp
  have e2: "methods_loop 0 ''a.dart'' scan_start 1 [''void f() {'', ''}'', ''int g() {'', ''  return 1;'', ''}'']
     = [\<lparr>mv_file = ''a.dart'', mv_method = Some ''f'', mv_lines = 2, mv_start_line = 1, mv_end_line = 2\<rparr>,
        \<lparr>mv_file = ''a.dart'', mv_method = Some ''g'', mv_lines = 3, mv_start_line = 3, mv_end_line = 5\<rparr>]"
    by code_simp
  from spans_ordered_disjoint [of 0
      "[''void f() {\<newline>'', ''}\<newline>'', ''int g() {\<newline>'', ''  return 1;\<newline>'', ''}\<newline>'']"
      0 "''a.dart''" "[''void f() {'', ''}'', ''int g() {'', ''  return 1;'', ''}'']"]
  show ?thesis unfolding list_all_iff e1 e2 by blast
qed

text \<open>
  Claim C10. In \<open>analyze_method_sizes\<close> the depth starts at 1 and the first line read
  is the one after the header, so no brace of the header line is counted. For a header
  at line \<open>i\<close> (counted from 0) at which the scan looks, also one whose body opens and
  closes on that very line, the span starts at line \<open>i + 1\<close> (counted from 1) and ends
  at \<open>e\<close>, where \<open>e\<close> is the first later line after which the depth is 0, or the
  last line of the file when there is none: the depth stays positive before \<open>e\<close>, it
  is 0 after \<open>e\<close> unless \<open>e\<close> is the last line, \<open>e\<close> lies after the header line
  unless the header is the last line, and \<open>e\<close> is the same whatever the header line
  holds.
\<close>

theorem header_line_braces_not_counted:
  assumes "i < length lines" and "re_match method_pattern (lines ! i) = Some m"
  shows "let e = find_end lines 1 (i + 1) in
     scan_methods thr lines i =
       (if e - i > thr
        then [\<lparr>method_name = fst m, start_line = i + 1, end_line = e, line_count = e - i\<rparr>]
        else []) @ scan_methods thr lines e
     \<and> i + 1 \<le> e \<and> e \<le> length lines
     \<and> (i + 1 < length lines \<longrightarrow> i + 1 < e)
     \<and> (\<forall>k. i + 1 \<le> k \<and> k < e \<longrightarrow> 0 < depth_after lines 1 (i + 1) k)
     \<and> (e < length lines \<longrightarrow> depth_after lines 1 (i + 1) e = 0)
     \<and> (\<forall>h. find_end (lines[i := h]) 1 (i + 1) = e)"
proof -
  define e where "e = find_end lines 1 (i + 1)"
  have ge: "i + 1 \<le> e" unfolding e_def by (rule find_end_ge)
  have d: "(\<forall>k. i + 1 \<le> k \<and> k < e \<longrightarrow> 0 < depth_after lines 1 (i + 1) k)
     \<and> e \<le> length lines \<and> (e < length lines \<longrightarrow> depth_after lines 1 (i + 1) e = 0)"
    unfolding e_def using assms(1) by (intro find_end_depth) auto
  have gt: "i + 1 < length lines \<longrightarrow> i + 1 < e"
    unfolding e_def by (auto intro: find_end_gt)
  have indep: "find_end (lines[i := h]) 1 (i + 1) = e" for h
    unfolding e_def by (rule find_end_cong) auto
  have eq: "scan_methods thr lines i =
       (if e - i > thr
        then [\<lparr>method_name = fst m, start_line = i + 1, end_line = e, line_count = e - i\<rparr>]
        else []) @ scan_methods thr lines e"
  proof -
    have "Suc (find_end lines 1 (Suc i) - Suc i) = find_end lines 1 (Suc i) - i"
      using ge unfolding e_def by simp
    then show ?thesis
      using assms unfolding e_def by (subst scan_methods.simps) (simp add: Let_def)
  qed
  from eq ge d gt indep show ?thesis unfolding Let_def e_def [symmetric] by blast
qed

theorem header_line_braces_not_counted_witness:
  "re_match method_pattern ([''void f() { }\<newline>'', ''int x = 0;\<newline>'', ''}\<newline>'', ''int y;\<newline>''] ! 0)
     = Some (''f'', '' }\<newline>'')
   \<and> find_end [''void f() { }\<newline>'', ''int x = 0;\<newline>'', ''}\<newline>'', ''int y;\<newline>''] 1 1 = 3
   \<and> scan_methods 0 [''void f() { }\<newline>'', ''int x = 0;\<newline>'', ''}\<newline>'', ''int y;\<newline>''] 0
       = [\<lparr>method_name = ''f'', start_line = 1, end_line = 3, line_count = 3\<rparr>]
   \<and> depth_after [''void f() { }\<newline>'', ''int x = 0;\<newline>'', ''}\<newline>'', ''int y;\<newline>''] 1 1 2 = 1
   \<and> depth_after [''void f() { }\<newline>'', ''int x = 0;\<newline>'', ''}\<newline>'', ''int y;\<newline>''] 1 1 3 = 0
   \<and> find_end ([''void f() { }\<newline>'', ''int x = 0;\<newline>'', ''}\<newline>'', ''int y;\<newline>''][0 := ''void f() {\<newline>'']) 1 1 = 3"
proof -
  let ?L = "[''void f() { }\<newline>'', ''int x = 0;\<newline>'', ''}\<newline>'', ''int y;\<newline>'']"
  have h1: "0 < length ?L" by simp
  have h2: "re_match method_pattern (?L ! 0) = Some (''f'', '' }\<newline>'')" by code_simp
  have e: "find_end ?L 1 (Suc 0) = 3" by code_simp
  have s: "scan_methods 0 ?L 3 = []" by code_simp
  have d2: "depth_after ?L 1 (Suc 0) 2 = 1" by code_simp
  from header_line_braces_not_counted [OF h1 h2, of 0] h2 d2
  show ?thesis by (simp add: Let_def e s)
qed

text \<open>
  Claim C1, as the code has it. Neither scan knows string literals or comments: every
  \<open>{\<close> and \<open>}\<close> of a line that is read counts, wherever it stands. The closing line
  found by \<open>analyze_method_sizes\<close> and the brace balance that \<open>analyze_methods\<close>
  adds for a line depend on the brace characters of the lines alone, so two files that
  differ only in other characters (among them the quotes around a brace) close their
  methods on the same line; and a line whose only brace is a \<open>}\<close>, quoted or not,
  closes a method of depth 1 on that line.
\<close>

theorem braces_counted_everywhere:
  assumes "map (filter is_brace) ls = map (filter is_brace) ls'"
  shows "find_end ls d j = find_end ls' d j
     \<and> map brace_delta ls = map brace_delta ls'
     \<and> (j < length ls \<and> filter is_brace (ls ! j) = ''}'' \<longrightarrow> find_end ls 1 j = j + 1)"
proof -
  from assms have len: "length ls = length ls'"
    by (metis length_map)
  have nth: "filter is_brace (ls ! k) = filter is_brace (ls' ! k)" if "k < length ls" for k
    using that assms len by (metis nth_map)
  have cl: "count_line c (ls ! k) = count_line c (ls' ! k)" if "k < length ls" for k c
    using nth [OF that] count_line_braces [of c "ls ! k"] count_line_braces [of c "ls' ! k"]
    by simp
  have a: "find_end ls d j = find_end ls' d j"
    using len cl by (intro find_end_cong) auto
  have b: "map brace_delta ls = map brace_delta ls'"
  proof (rule nth_equalityI)
    show "length (map brace_delta ls) = length (map brace_delta ls')" using len by simp
  next
    fix k assume "k < length (map brace_delta ls)"
    then have k: "k < length ls" by simp
    from nth [OF k] have "brace_delta (ls ! k) = brace_delta (ls' ! k)"
      using brace_delta_braces [of "ls ! k"] brace_delta_braces [of "ls' ! k"] by simp
    with k len show "map brace_delta ls ! k = map brace_delta ls' ! k" by simp
  qed
  have c: "find_end ls 1 j = j + 1" if "j < length ls" "filter is_brace (ls ! j) = ''}''"
  proof -
    have "count_line 1 (ls ! j) = count_line 1 ''}''"
      using count_line_braces [of 1 "ls ! j"] that(2) by simp
    then have "count_line 1 (ls ! j) = 0" by simp
    with that(1) show ?thesis by (simp add: find_end_step find_end_stop)
  qed
  from a b c show ?thesis by blast
qed

theorem braces_counted_everywhere_witness:
  "map (filter is_brace) [''void f() {\<newline>'', ''  print(\"}\");\<newline>'', ''  g();\<newline>'', ''}\<newline>'']
     = map (filter is_brace) [''{'', ''}'', [], ''}'']
   \<and> find_end [''void f() {\<newline>'', ''  print(\"}\");\<newline>'', ''  g();\<newline>'', ''}\<newline>''] 1 1 = 2
   \<and> find_end [''{'', ''}'', [], ''}''] 1 1 = 2
   \<and> map brace_delta [''void f() {\<newline>'', ''  print(\"}\");\<newline>'', ''  g();\<newline>'', ''}\<newline>'']
     = map brace_delta [''{'', ''}'', [], ''}'']"
proof -
  have h: "map (filter is_brace) [''void f() {\<newline>'', ''  print(\"}\");\<newline>'', ''  g();\<newline>'', ''}\<newline>'']
     = map (filter is_brace) [''{'', ''}'', [], ''}'']" by code_simp
  have e: "find_end [''{'', ''}'', [], ''}''] 1 (Suc 0) = 2" by code_simp
  from braces_counted_everywhere [OF h, of 1 1] h e show ?thesis by simp
qed

text \<open>
  Claim C1, as the specification states it, fails. The two files below differ only in a
  string literal of the body of \<open>f\<close>: the first prints \<open>"{"\<close>, the second \<open>""\<close>.
  Both scans close \<open>f\<close> on line 54 for the second file and on line 55, the closing line
  of the class, for the first.
\<close>

definition quoted_brace_file :: string where
  "quoted_brace_file =
     ''class A {\<newline>void f() {\<newline>  print(\"{\");\<newline>'' @ replicate 50 (CHR 0x0A) @ ''}\<newline>}\<newline>''"

definition plain_file :: string where
  "plain_file =
     ''class A {\<newline>void f() {\<newline>  print(\"\");\<newline>'' @ replicate 50 (CHR 0x0A) @ ''}\<newline>}\<newline>''"

lemma quoted_brace_sizes:
  "analyze_method_sizes (Some quoted_brace_file)
     = [\<lparr>method_name = ''f'', start_line = 2, end_line = 55, line_count = 54\<rparr>]"
  by code_simp

lemma plain_sizes:
  "analyze_method_sizes (Some plain_file)
     = [\<lparr>method_name = ''f'', start_line = 2, end_line = 54, line_count = 53\<rparr>]"
  by code_simp

lemma quoted_brace_project:
  "analyze_methods ''lib/a.dart'' (split_nl quoted_brace_file)
     = [\<lparr>mv_file = ''lib/a.dart'', mv_method = Some ''f'', mv_lines = 54,
         mv_start_line = 2, mv_end_line = 55\<rparr>]"
  by code_simp

lemma plain_project:
  "analyze_methods ''lib/a.dart'' (split_nl plain_file)
     = [\<lparr>mv_file = ''lib/a.dart'', mv_method = Some ''f'', mv_lines = 53,
         mv_start_line = 2, mv_end_line = 54\<rparr>]"
  by code_simp

theorem quoted_brace_moves_end_counterexample:
  "map end_line (analyze_method_sizes (Some quoted_brace_file)) = [55]
   \<and> map end_line (analyze_method_sizes (Some plain_file)) = [54]
   \<and> map mv_end_line (analyze_methods ''lib/a.dart'' (split_nl quoted_brace_file)) = [55]
   \<and> map mv_end_line (analyze_methods ''lib/a.dart'' (split_nl plain_file)) = [54]"
  by (simp add: quoted_brace_sizes plain_sizes quoted_brace_project plain_project)

section \<open>Impact scores\<close>

text \<open>The score that \<open>generate_report\<close> shows for a file: the entry of the file in
  \<open>file_scores\<close>, 0 for a file without entry.\<close>

definition impact_score :: "analyzer \<Rightarrow> string \<Rightarrow> int" where
  "impact_score a f = score (dict_get (file_scores a) f empty_entry)"

text \<open>What \<open>analyze_file\<close> keeps true of the recorded violations.\<close>

definition sizes_ok :: "analyzer \<Rightarrow> bool" where
  "sizes_ok a = ((\<forall>v \<in> set (v_files_over_500 a). 500 < fv_lines v \<and> fv_excess v = fv_lines v - 500)
     \<and> (\<forall>v \<in> set (v_methods_over_50 a). 50 < mv_lines v))"

definition size_fs :: "string \<rightharpoonup> string" where
  "size_fs = [''lib/big.dart'' \<mapsto> replicate 649 (CHR 0x0A),
              ''lib/m.dart'' \<mapsto> ''void f() {\<newline>'' @ replicate 73 (CHR 0x0A) @ ''}'']"

definition unreadable_fs :: "string \<rightharpoonup> string" where
  "unreadable_fs = [''lib/b.dart'' \<mapsto> ''void main() {\<newline>}\<newline>'']"

text \<open>The loop of \<open>main\<close> in analyze\_methods.py, before the results are sorted.\<close>

definition all_methods :: "(string \<rightharpoonup> string) \<Rightarrow> string list \<Rightarrow> MethodInfo list" where
  "all_methods fs dart_files = concat (map (\<lambda>file_path. analyze_method_sizes (fs file_path)) dart_files)"

lemma score_empty_entry: "score empty_entry = 0"
  by (simp add: empty_entry_def)

lemma dict_get_put: "dict_get (dict_put d k v) k' dflt = (if k' = k then v else dict_get d k' dflt)"
  by (induction d) auto

lemma score_files_sum:
  "score (dict_get (score_files vs d) f empty_entry) =
     score (dict_get d f empty_entry) + (\<Sum>v\<leftarrow>filter (\<lambda>v. fv_file v = f) vs. (fv_excess v div 100) * 10)"
  by (induction vs arbitrary: d) (auto simp: Let_def dict_get_put)

lemma score_methods_sum:
  "score (dict_get (score_methods vs d) f empty_entry) =
     score (dict_get d f empty_entry) + (\<Sum>v\<leftarrow>filter (\<lambda>v. mv_file v = f) vs. (mv_lines v - 50) div 10)"
  by (induction vs arbitrary: d) (auto simp: Let_def dict_get_put)

lemma methods_loop_lines:
  "v \<in> set (methods_loop thr f st i ls) \<Longrightarrow> thr < mv_lines v \<and> mv_file v = f"
  by (induction ls arbitrary: st i) (auto simp: Let_def split: if_splits)

lemma analyze_file_sizes_ok:
  "sizes_ok a \<Longrightarrow> analyze_file fs f a = Inr a' \<Longrightarrow> sizes_ok a'"
  by (auto simp: analyze_file_def sizes_ok_def Let_def analyze_methods_def
      split: if_splits option.splits dest: methods_loop_lines)

lemma analyze_files_sizes_ok:
  "sizes_ok a \<Longrightarrow> analyze_files fs files a = Inr a' \<Longrightarrow> sizes_ok a'"
proof (induction files arbitrary: a)
  case Nil
  then show ?case by simp
next
  case (Cons f files)
  then show ?case by (auto split: sum.splits dest: analyze_file_sizes_ok)
qed

text \<open>
  Claim C6. After a run of \<open>analyze_project\<close> the impact score of a file is the sum of
  \<open>((line_count - 500) div 100) * 10\<close> over the oversized-file violations recorded for
  it plus the sum of \<open>(method_lines - 50) div 10\<close> over its oversized-method
  violations; a violation is recorded only for a file of more than 500 lines and for a
  method of more than 50 lines. Division is Python's floor division.
\<close>

theorem impact_score_formula:
  assumes "analyze_project fs lib_dart test_dart = Inr a"
  shows "impact_score a f =
      (\<Sum>v\<leftarrow>filter (\<lambda>v. fv_file v = f) (v_files_over_500 a). ((fv_lines v - 500) div 100) * 10)
    + (\<Sum>v\<leftarrow>filter (\<lambda>v. mv_file v = f) (v_methods_over_50 a). (mv_lines v - 50) div 10)
    \<and> (\<forall>v \<in> set (v_files_over_500 a). 500 < fv_lines v)
    \<and> (\<forall>v \<in> set (v_methods_over_50 a). 50 < mv_lines v)"
proof -
  have "sizes_ok new_analyzer" by (simp add: sizes_ok_def new_analyzer_def)
  then have ok: "sizes_ok a"
    using assms unfolding analyze_project_def by (rule analyze_files_sizes_ok)
  have "(\<Sum>v\<leftarrow>filter (\<lambda>v. fv_file v = f) (v_files_over_500 a). (fv_excess v div 100) * 10)
      = (\<Sum>v\<leftarrow>filter (\<lambda>v. fv_file v = f) (v_files_over_500 a). ((fv_lines v - 500) div 100) * 10)"
    using ok by (intro arg_cong [where f = sum_list] map_cong) (auto simp: sizes_ok_def)
  then show ?thesis
    using ok by (simp add: impact_score_def file_scores_def score_files_sum score_methods_sum
        score_empty_entry sizes_ok_def)
qed

lemma size_fs_run:
  "analyze_project size_fs [''lib/big.dart'', ''lib/m.dart''] [] = Inr
    \<lparr>total_files = 2, files_over_500 = 1, methods_over_50 = 1, total_lines = 725,
     v_files_over_500 = [\<lparr>fv_file = ''lib/big.dart'', fv_lines = 650, fv_excess = 150\<rparr>],
     v_methods_over_50 = [\<lparr>mv_file = ''lib/m.dart'', mv_method = Some ''f'', mv_lines = 75,
        mv_start_line = 1, mv_end_line = 75\<rparr>]\<rparr>"
  by code_simp

text \<open>A file of 650 lines scores 10, a file with one method of 75 lines scores 2.\<close>

theorem impact_score_formula_witness:
  "analyze_project size_fs [''lib/big.dart'', ''lib/m.dart''] [] = Inr
    \<lparr>total_files = 2, files_over_500 = 1, methods_over_50 = 1, total_lines = 725,
     v_files_over_500 = [\<lparr>fv_file = ''lib/big.dart'', fv_lines = 650, fv_excess = 150\<rparr>],
     v_methods_over_50 = [\<lparr>mv_file = ''lib/m.dart'', mv_method = Some ''f'', mv_lines = 75,
        mv_start_line = 1, mv_end_line = 75\<rparr>]\<rparr>
   \<and> impact_score
        \<lparr>total_files = 2, files_over_500 = 1, methods_over_50 = 1, total_lines = 725,
         v_files_over_500 = [\<lparr>fv_file = ''lib/big.dart'', fv_lines = 650, fv_excess = 150\<rparr>],
         v_methods_over_50 = [\<lparr>mv_file = ''lib/m.dart'', mv_method = Some ''f'', mv_lines = 75,
            mv_start_line = 1, mv_end_line = 75\<rparr>]\<rparr> ''lib/big.dart'' = 10
   \<and> impact_score
        \<lparr>total_files = 2, files_over_500 = 1, methods_over_50 = 1, total_lines = 725,
         v_files_over_500 = [\<lparr>fv_file = ''lib/big.dart'', fv_lines = 650, fv_excess = 150\<rparr>],
         v_methods_over_50 = [\<lparr>mv_file = ''lib/m.dart'', mv_method = Some ''f'', mv_lines = 75,
            mv_start_line = 1, mv_end_line = 75\<rparr>]\<rparr> ''lib/m.dart'' = 2"
  using impact_score_formula [OF size_fs_run, of "''lib/big.dart''"]
    impact_score_formula [OF size_fs_run, of "''lib/m.dart''"] size_fs_run
  by simp

section \<open>Unreadable files\<close>

text \<open>
  Claim C7. \<open>analyze_method_sizes\<close> catches the error of \<open>open\<close> and returns no
  methods, so the loop over the files goes on. \<open>analyze_file\<close> of analyze\_project.py
  opens the file outside any handler: the first file that cannot be read ends
  \<open>analyze_project\<close> with the error, and no result is produced, not even for the files
  read before it.
\<close>

lemma unreadable_file_skipped_by_method_sizes:
  "fs f = None \<Longrightarrow> all_methods fs (pre @ f # post) = all_methods fs pre @ all_methods fs post"
  by (simp add: all_methods_def analyze_method_sizes_def)

lemma unreadable_file_ends_analyze_files:
  "f \<in> set files \<Longrightarrow> \<not> is_excluded f \<Longrightarrow> fs f = None \<Longrightarrow> \<exists>e. analyze_files fs files a = Inl e"
proof (induction files arbitrary: a)
  case Nil
  then show ?case by simp
next
  case (Cons g files)
  show ?case
  proof (cases "analyze_file fs g a")
    case (Inl e)
    then show ?thesis by simp
  next
    case (Inr a')
    with Cons.prems have "g \<noteq> f" by (auto simp: analyze_file_def)
    with Cons.prems have "f \<in> set files" by simp
    from Cons.IH [OF this Cons.prems(2,3)] Inr show ?thesis by simp
  qed
qed

theorem unreadable_file_aborts_project_scan:
  "analyze_project unreadable_fs [''lib/a.dart'', ''lib/b.dart''] [] = Inl (IoError ''lib/a.dart'')"
  by code_simp

section \<open>Properties of the dead-code analysis\<close>

lemma in_chr: "(g', r) \<in> set (chr P (g, s)) \<longleftrightarrow> g' = g \<and> (\<exists>c. s = c # r \<and> P c)"
  by (auto simp: chr_def split: list.splits)

lemma in_lit: "(g', r) \<in> set (lit w (g, s)) \<longleftrightarrow> g' = g \<and> s = w @ r"
  by (auto simp: lit_def) (metis append_take_drop_id)

lemma in_star_from: "r \<in> set (star_from P s) \<longleftrightarrow> (\<exists>u. s = u @ r \<and> (\<forall>c \<in> set u. P c))"
proof (induction s)
  case Nil
  show ?case by auto
next
  case (Cons c cs)
  show ?case
  proof (cases "P c")
    case True
    with Cons show ?thesis
      by (auto simp: Cons_eq_append_conv)
  next
    case False
    then show ?thesis by (auto simp: Cons_eq_append_conv)
  qed
qed

lemma in_star: "(g', r) \<in> set (star P (g, s)) \<longleftrightarrow> g' = g \<and> (\<exists>u. s = u @ r \<and> (\<forall>c \<in> set u. P c))"
  by (auto simp: star_def in_star_from)

lemma in_seq:
  "(g', r) \<in> set (seq a b st) \<longleftrightarrow> (\<exists>g1 r1. (g1, r1) \<in> set (a st) \<and> (g', r) \<in> set (b (g1, r1)))"
  by (auto simp: seq_def)

lemma in_alt: "x \<in> set (alt a b st) \<longleftrightarrow> x \<in> set (a st) \<or> x \<in> set (b st)"
  by (auto simp: alt_def)

lemma in_eps: "x \<in> set (eps st) \<longleftrightarrow> x = st"
  by (auto simp: eps_def)

lemma in_plus:
  "(g', r) \<in> set (plus P (g, s)) \<longleftrightarrow> g' = g \<and> (\<exists>u. s = u @ r \<and> u \<noteq> [] \<and> (\<forall>c \<in> set u. P c))"
proof
  assume "(g', r) \<in> set (plus P (g, s))"
  then obtain c u where "g' = g" "s = c # u @ r" "P c" "\<forall>x \<in> set u. P x"
    by (auto simp: plus_def in_seq in_chr in_star)
  then have "s = (c # u) @ r \<and> c # u \<noteq> [] \<and> (\<forall>x \<in> set (c # u). P x)" by simp
  with \<open>g' = g\<close> show "g' = g \<and> (\<exists>u. s = u @ r \<and> u \<noteq> [] \<and> (\<forall>c \<in> set u. P c))" by blast
next
  assume "g' = g \<and> (\<exists>u. s = u @ r \<and> u \<noteq> [] \<and> (\<forall>c \<in> set u. P c))"
  then obtain u where u: "g' = g" "s = u @ r" "u \<noteq> []" "\<forall>c \<in> set u. P c" by blast
  then obtain c u' where "u = c # u'" by (cases u) auto
  with u show "(g', r) \<in> set (plus P (g, s))"
    by (auto simp: plus_def in_seq in_chr in_star)
qed

lemma in_grp_plus:
  "(g', r) \<in> set (grp (plus P) (g, s)) \<Longrightarrow> s = g' @ r \<and> g' \<noteq> [] \<and> (\<forall>c \<in> set g'. P c)"
  by (auto simp: grp_def in_plus)

lemma space_not_word: "is_space c \<Longrightarrow> \<not> is_word c"
  by (auto simp: is_space_def is_word_def Let_def)

lemma brace_not_word: "\<not> is_word (CHR ''{'')"
  by (simp add: is_word_def)

lemma spaces_then_rest:
  "u \<noteq> [] \<Longrightarrow> \<forall>c \<in> set u. is_space c \<Longrightarrow> u @ v \<noteq> [] \<and> \<not> is_word (hd (u @ v))"
  by (cases u) (auto dest: space_not_word)

lemma spaces_then_brace:
  "\<forall>c \<in> set u. is_space c \<Longrightarrow> u @ CHR ''{'' # v \<noteq> [] \<and> \<not> is_word (hd (u @ CHR ''{'' # v))"
  by (cases u) (auto dest: space_not_word simp: brace_not_word)

lemma hd_spaces_not_word: "u \<noteq> [] \<Longrightarrow> \<forall>c \<in> set u. is_space c \<Longrightarrow> \<not> is_word (hd u)"
  by (cases u) (auto dest: space_not_word)

lemma class_tail_shape:
  "(g', r) \<in> set (class_tail (g, rest)) \<Longrightarrow>
   g' = g \<and> rest \<noteq> [] \<and> \<not> is_word (hd rest) \<and> (\<exists>u. rest = u @ r)"
  unfolding class_tail_def
  by (auto simp: in_seq in_alt in_eps in_lit in_plus in_star hd_append brace_not_word
      dest: hd_spaces_not_word split: if_splits)

lemma class_match_shape:
  assumes "(g, r) \<in> set (class_pattern (g0, t))"
  shows "\<exists>ws rest. t = ''class'' @ ws @ g @ rest \<and> ws \<noteq> [] \<and> (\<forall>c \<in> set ws. is_space c)
     \<and> g \<noteq> [] \<and> (\<forall>c \<in> set g. is_word c) \<and> rest \<noteq> [] \<and> \<not> is_word (hd rest)
     \<and> (\<exists>u. rest = u @ r)"
proof -
  from assms obtain g1 r1 g2 r2 g3 r3 where
    a: "(g1, r1) \<in> set (lit ''class'' (g0, t))"
    and b: "(g2, r2) \<in> set (plus is_space (g1, r1))"
    and c: "(g3, r3) \<in> set (grp (plus is_word) (g2, r2))"
    and d: "(g, r) \<in> set (class_tail (g3, r3))"
    unfolding class_pattern_def by (auto simp: in_seq in_eps)
  from a have t: "t = ''class'' @ r1" by (simp add: in_lit)
  from b obtain ws where ws: "r1 = ws @ r2" "ws \<noteq> []" "\<forall>c \<in> set ws. is_space c"
    by (auto simp: in_plus)
  from in_grp_plus [OF c] have r2: "r2 = g3 @ r3" "g3 \<noteq> []" "\<forall>c \<in> set g3. is_word c" by auto
  from class_tail_shape [OF d]
  have rest: "g = g3" "r3 \<noteq> []" "\<not> is_word (hd r3)" "\<exists>u. r3 = u @ r" by auto
  from t ws r2 rest show ?thesis
    by (intro exI [of _ ws] exI [of _ r3]) auto
qed

lemma re_match_in: "re_match p t = Some m \<Longrightarrow> m \<in> set (p ([], t))"
  by (auto simp: re_match_def split: list.splits)

lemma finditer_match:
  "(\<And>t m. re_match p t = Some m \<Longrightarrow> \<exists>u. t = u @ snd m) \<Longrightarrow> g \<in> set (finditer p s) \<Longrightarrow>
   \<exists>pre t r. s = pre @ t \<and> re_match p t = Some (g, r)"
proof (induction p s rule: finditer.induct)
  case (1 p s)
  note sfx = "1.prems"(1) and mem = "1.prems"(2)
  show ?case
  proof (cases "re_match p s")
    case None
    show ?thesis
    proof (cases s)
      case Nil
      with None mem show ?thesis by (subst (asm) finditer.simps) simp
    next
      case (Cons c cs)
      with None mem have "g \<in> set (finditer p cs)" by (subst (asm) finditer.simps) simp
      from "1.IH"(1) [OF None Cons sfx this] obtain pre t r where
        "cs = pre @ t" "re_match p t = Some (g, r)" by blast
      with Cons have "s = (c # pre) @ t" by simp
      with \<open>re_match p t = Some (g, r)\<close> show ?thesis by blast
    qed
  next
    case (Some m)
    have here: "\<exists>pre t r. s = pre @ t \<and> re_match p t = Some (fst m, r)"
      using Some by (intro exI [of _ "[]"] exI [of _ s] exI [of _ "snd m"]) simp
    show ?thesis
    proof (cases "length (snd m) < length s")
      case True
      with Some mem consider "g = fst m" | "g \<in> set (finditer p (snd m))"
        by (subst (asm) finditer.simps) auto
      then show ?thesis
      proof cases
        case 1
        with here show ?thesis by simp
      next
        case 2
        from "1.IH"(2) [OF Some True sfx 2] obtain pre t r where
          pt: "snd m = pre @ t" "re_match p t = Some (g, r)" by blast
        from sfx [OF Some] obtain u where "s = u @ snd m" by blast
        with pt have "s = (u @ pre) @ t" by simp
        with pt(2) show ?thesis by blast
      qed
    next
      case False
      show ?thesis
      proof (cases s)
        case Nil
        with Some False mem have "g = fst m" by (subst (asm) finditer.simps) auto
        with here show ?thesis by simp
      next
        case (Cons c cs)
        with Some False mem consider "g = fst m" | "g \<in> set (finditer p cs)"
          by (subst (asm) finditer.simps) auto
        then show ?thesis
        proof cases
          case 1
          with here show ?thesis by simp
        next
          case 2
          from "1.IH"(3) [OF Some False Cons sfx 2] obtain pre t r where
            "cs = pre @ t" "re_match p t = Some (g, r)" by blast
          with Cons have "s = (c # pre) @ t \<and> re_match p t = Some (g, r)" by simp
          then show ?thesis by blast
        qed
      qed
    qed
  qed
qed

lemma word_from_suffix:
  "word_here (if pre = [] then prev else Some (last pre)) name t \<Longrightarrow> word_from prev name (pre @ t)"
proof (induction pre arbitrary: prev)
  case Nil
  then show ?case by (cases t) auto
next
  case (Cons c pre)
  have "word_from (Some c) name (pre @ t)"
    using Cons.prems by (intro Cons.IH) (auto split: if_splits)
  then show ?case by simp
qed

lemma class_name_has_word:
  assumes "g \<in> set (finditer class_pattern content)"
  shows "has_word g content"
proof -
  have sfx: "\<exists>u. t = u @ snd m" if "re_match class_pattern t = Some m" for t m
  proof -
    from re_match_in [OF that] have "(fst m, snd m) \<in> set (class_pattern ([], t))" by simp
    from class_match_shape [OF this] show ?thesis by (metis append.assoc)
  qed
  from finditer_match [of class_pattern, OF sfx assms] obtain pre t r where
    pt: "content = pre @ t" "re_match class_pattern t = Some (g, r)" by blast
  from class_match_shape [OF re_match_in [OF pt(2)]] obtain ws rest where
    sh: "t = ''class'' @ ws @ g @ rest" "ws \<noteq> []" "\<forall>c \<in> set ws. is_space c"
      "g \<noteq> []" "\<forall>c \<in> set g. is_word c" "rest \<noteq> []" "\<not> is_word (hd rest)"
    by blast
  let ?pre = "pre @ ''class'' @ ws"
  have c: "content = ?pre @ (g @ rest)" using pt(1) sh(1) by simp
  have l: "last ?pre = last ws" using sh(2) by simp
  have "\<not> is_word (last ws)" using sh(2,3) by (auto dest: space_not_word)
  moreover have "is_word (hd g)" "is_word (last g)" using sh(4,5) by auto
  ultimately have "word_here (Some (last ?pre)) g (g @ rest)"
    using sh(4,6,7) l
    by (cases g; cases rest)
       (auto simp: word_here_def boundary_def wordy_def first_char_def starts_with_def)
  then have "word_from None g (?pre @ (g @ rest))"
    by (intro word_from_suffix) simp
  with c show ?thesis by (simp add: has_word_def)
qed

lemma starts_with_iff: "starts_with p s \<longleftrightarrow> (\<exists>b. s = p @ b)"
proof
  assume "starts_with p s"
  then have "s = p @ drop (length p) s"
    unfolding starts_with_def by (metis append_take_drop_id)
  then show "\<exists>b. s = p @ b" ..
next
  assume "\<exists>b. s = p @ b"
  then show "starts_with p s" by (auto simp: starts_with_def)
qed

text \<open>\<open>contains\<close> is the substring test.\<close>

lemma contains_iff: "contains sub s \<longleftrightarrow> (\<exists>a b. s = a @ sub @ b)"
proof (induction s)
  case Nil
  show ?case by auto
next
  case (Cons c cs)
  show ?case
  proof
    assume "contains sub (c # cs)"
    then consider "starts_with sub (c # cs)" | "contains sub cs" by auto
    then show "\<exists>a b. c # cs = a @ sub @ b"
    proof cases
      case 1
      then obtain b where "c # cs = sub @ b" by (auto simp: starts_with_iff)
      then have "c # cs = [] @ sub @ b" by simp
      then show ?thesis by blast
    next
      case 2
      with Cons.IH obtain a b where "cs = a @ sub @ b" by blast
      then have "c # cs = (c # a) @ sub @ b" by simp
      then show ?thesis by blast
    qed
  next
    assume "\<exists>a b. c # cs = a @ sub @ b"
    then obtain a b where ab: "c # cs = a @ sub @ b" by blast
    show "contains sub (c # cs)"
    proof (cases a)
      case Nil
      with ab have "starts_with sub (c # cs)" unfolding starts_with_iff by auto
      then show ?thesis by simp
    next
      case (Cons x a')
      with ab have "cs = a' @ sub @ b" by simp
      with Cons.IH show ?thesis by auto
    qed
  qed
qed

lemma unused_files_loop_iff:
  "f \<in> set (unused_files_loop imps files) \<longleftrightarrow>
     f \<in> set files \<and> \<not> contains ''.g.dart'' f \<and> \<not> contains ''.mocks.dart'' f
     \<and> \<not> contains ''export.dart'' f \<and> \<not> ends_with ''main.dart'' f
     \<and> (\<forall>imp \<in> imps. \<not> contains (basename f) imp \<and> \<not> contains (forward_slashes f) imp)"
  by (induction files) (auto simp: Let_def)

text \<open>
  Claim C5. A library file that is not skipped (its path holds neither \<open>.g.dart\<close>,
  \<open>.mocks.dart\<close> nor \<open>export.dart\<close> and does not end in \<open>main.dart\<close>) is reported
  by \<open>find_unused_files\<close> exactly when no recorded import text contains its base name
  or its path (written with \<open>/\<close>) as a substring. So a file whose base name occurs in
  any recorded import text, related or not, is not reported.
\<close>

theorem dead_file_iff_no_import_mentions_it:
  "(f \<in> set (find_unused_files st) \<longleftrightarrow>
     f \<in> set (lib_files st) \<and> \<not> contains ''.g.dart'' f \<and> \<not> contains ''.mocks.dart'' f
     \<and> \<not> contains ''export.dart'' f \<and> \<not> ends_with ''main.dart'' f
     \<and> (\<forall>imp \<in> all_imports st.
           \<not> contains (basename f) imp \<and> \<not> contains (forward_slashes f) imp))
   \<and> (imp \<in> all_imports st \<and> (\<exists>a b. imp = a @ basename f @ b)
        \<longrightarrow> f \<notin> set (find_unused_files st))"
proof -
  have a: "f \<in> set (find_unused_files st) \<longleftrightarrow>
     f \<in> set (lib_files st) \<and> \<not> contains ''.g.dart'' f \<and> \<not> contains ''.mocks.dart'' f
     \<and> \<not> contains ''export.dart'' f \<and> \<not> ends_with ''main.dart'' f
     \<and> (\<forall>imp \<in> all_imports st.
           \<not> contains (basename f) imp \<and> \<not> contains (forward_slashes f) imp)"
    by (simp add: find_unused_files_def unused_files_loop_iff)
  have b: "f \<notin> set (find_unused_files st)"
    if "imp \<in> all_imports st" "\<exists>a b. imp = a @ basename f @ b"
  proof -
    from that(2) have "contains (basename f) imp" by (simp add: contains_iff)
    with that(1) a show ?thesis by blast
  qed
  from a b show ?thesis by blast
qed

text \<open>A corpus of four library files: \<open>main.dart\<close> imports \<open>src/home_page.dart\<close>.
  \<open>orphan.dart\<close> is reported; \<open>page.dart\<close> is imported nowhere either, but its base
  name is a piece of the import text, and it is not reported.\<close>

definition dead_fs :: "string \<rightharpoonup> string" where
  "dead_fs = [
     ''lib/main.dart'' \<mapsto>
       ''import 'package:flutter/material.dart';\<newline>import 'src/home_page.dart';\<newline>void main() {}\<newline>'',
     ''lib/src/home_page.dart'' \<mapsto> ''class HomePage {}\<newline>'',
     ''lib/src/page.dart'' \<mapsto> ''class Page {}\<newline>'',
     ''lib/src/orphan.dart'' \<mapsto> ''class Orphan {}\<newline>'']"

definition dead_lib :: "string list" where
  "dead_lib = [''lib/main.dart'', ''lib/src/home_page.dart'', ''lib/src/page.dart'',
     ''lib/src/orphan.dart'']"

lemma dead_fs_imports:
  "all_imports (analyze_imports_exports dead_fs (scanned dead_lib [])) = {''src/home_page.dart''}"
  by code_simp

lemma dead_fs_unused:
  "find_unused_files (analyze_imports_exports dead_fs (scanned dead_lib []))
     = [''lib/src/orphan.dart'']"
  by code_simp

theorem dead_file_iff_no_import_mentions_it_witness:
  "all_imports (analyze_imports_exports dead_fs (scanned dead_lib [])) = {''src/home_page.dart''}
   \<and> ''src/home_page.dart'' = ''src/home_'' @ basename ''lib/src/page.dart'' @ []
   \<and> ''lib/src/page.dart'' \<notin> set (find_unused_files (analyze_imports_exports dead_fs (scanned dead_lib [])))
   \<and> ''lib/src/orphan.dart'' \<in> set (find_unused_files (analyze_imports_exports dead_fs (scanned dead_lib [])))"
proof -
  have b: "''src/home_page.dart'' = ''src/home_'' @ basename ''lib/src/page.dart'' @ []"
    by (simp add: basename_def)
  then have ex: "\<exists>a b. ''src/home_page.dart'' = a @ basename ''lib/src/page.dart'' @ b"
    by blast
  have i: "''src/home_page.dart'' \<in> all_imports (analyze_imports_exports dead_fs (scanned dead_lib []))"
    by (simp add: dead_fs_imports)
  from dead_file_iff_no_import_mentions_it
    [of "''lib/src/page.dart''" "analyze_imports_exports dead_fs (scanned dead_lib [])"
        "''src/home_page.dart''"] i ex
  have "''lib/src/page.dart'' \<notin> set (find_unused_files (analyze_imports_exports dead_fs (scanned dead_lib [])))"
    by blast
  with b show ?thesis by (simp add: dead_fs_imports dead_fs_unused)
qed

text \<open>A file that cannot be read, or whose text holds no class definition and none of
  the given names as a word.\<close>

definition no_class_no_mention :: "(string \<rightharpoonup> string) \<Rightarrow> string list \<Rightarrow> string \<Rightarrow> bool" where
  "no_class_no_mention fs names f =
     (case fs f of None \<Rightarrow> True
      | Some c \<Rightarrow> finditer class_pattern c = [] \<and> (\<forall>k \<in> set names. \<not> has_word k c))"

lemma foldl_usages_quiet:
  "\<forall>k \<in> set ks. \<not> P k \<Longrightarrow> foldl (\<lambda>u k. if P k then u(k := u k + (1::int)) else u) u0 ks = u0"
  by (induction ks arbitrary: u0) auto

lemma scan_file_quiet:
  "no_class_no_mention fs (map fst (class_definitions st)) f \<Longrightarrow>
   class_definitions (scan_file fs f st) = class_definitions st
   \<and> class_usages (scan_file fs f st) = class_usages st"
  by (auto simp: no_class_no_mention_def scan_file_def Let_def foldl_usages_quiet split: option.splits)

lemma scan_files_quiet:
  "\<forall>f \<in> set fl. no_class_no_mention fs (map fst (class_definitions st)) f \<Longrightarrow>
   class_definitions (foldl (\<lambda>s f. scan_file fs f s) st fl) = class_definitions st
   \<and> class_usages (foldl (\<lambda>s f. scan_file fs f s) st fl) = class_usages st"
proof (induction fl arbitrary: st)
  case Nil
  show ?case by simp
next
  case (Cons f fl)
  from Cons.prems have q: "no_class_no_mention fs (map fst (class_definitions st)) f" by simp
  note s = scan_file_quiet [OF q]
  from Cons.prems s
  have "\<forall>g \<in> set fl. no_class_no_mention fs (map fst (class_definitions (scan_file fs f st))) g"
    by simp
  from Cons.IH [OF this] s show ?case by simp
qed

lemma unused_classes_reported:
  "(c, files) \<in> set (class_definitions s) \<Longrightarrow> class_usages s c \<le> 1 \<Longrightarrow>
   \<lparr>uc_class = c, uc_defined_in = files, uc_usage_count = class_usages s c\<rparr>
     \<in> set (find_unused_classes s)"
  by (force simp: find_unused_classes_def unused_classes_def Let_def)

text \<open>
  Claim C3. Take a corpus of distinct files in which one readable file \<open>f0\<close> holds
  exactly one class definition, of the class \<open>cn\<close>, and every other file holds no class
  definition and no word \<open>cn\<close> (or cannot be read). After \<open>analyze_imports_exports\<close>
  the class has the usage count 1, the only reference being the one in its own
  definition, and \<open>find_unused_classes\<close> reports it. In every state of the analyzer a
  defined class with a usage count of at most 1 is reported.
\<close>

theorem lone_class_counts_one:
  assumes d: "distinct (lib @ test)"
    and f0: "f0 \<in> set (lib @ test)"
    and c0: "fs f0 = Some c0"
    and one: "finditer class_pattern c0 = [cn]"
    and others: "\<forall>f \<in> set (lib @ test). f \<noteq> f0 \<longrightarrow> no_class_no_mention fs [cn] f"
  shows "class_definitions (analyze_imports_exports fs (scanned lib test)) = [(cn, [f0])]
     \<and> class_usages (analyze_imports_exports fs (scanned lib test)) cn = 1
     \<and> find_unused_classes (analyze_imports_exports fs (scanned lib test))
         = [\<lparr>uc_class = cn, uc_defined_in = [f0], uc_usage_count = 1\<rparr>]
     \<and> (\<forall>s c files. (c, files) \<in> set (class_definitions s) \<and> class_usages s c \<le> 1 \<longrightarrow>
          \<lparr>uc_class = c, uc_defined_in = files, uc_usage_count = class_usages s c\<rparr>
            \<in> set (find_unused_classes s))"
proof -
  let ?step = "\<lambda>s f. scan_file fs f s"
  from split_list [OF f0] obtain pre post where split: "lib @ test = pre @ f0 # post"
    by blast
  from d have "distinct (pre @ f0 # post)" by (simp only: split)
  then have notin: "f0 \<notin> set pre" "f0 \<notin> set post" by auto
  let ?s0 = "scanned lib test"
  let ?s1 = "foldl ?step ?s0 pre"
  let ?s2 = "scan_file fs f0 ?s1"
  let ?s3 = "foldl ?step ?s2 post"
  have run: "analyze_imports_exports fs ?s0 = ?s3"
    by (simp add: analyze_imports_exports_def scanned_def split)
  have q: "no_class_no_mention fs [] f" if "f \<in> set pre" for f
    using that others notin split by (auto simp: no_class_no_mention_def split: option.splits) 
  have s1: "class_definitions ?s1 = [] \<and> class_usages ?s1 = (\<lambda>_. 0)"
    using scan_files_quiet [of pre fs ?s0] q by (simp add: scanned_def)
  have hw: "has_word cn c0" using one by (intro class_name_has_word) simp
  have s2: "class_definitions ?s2 = [(cn, [f0])] \<and> class_usages ?s2 cn = 1"
    using s1 c0 one hw by (simp add: scan_file_def Let_def)
  have "\<forall>f \<in> set post. no_class_no_mention fs (map fst (class_definitions ?s2)) f"
    using others notin split s2 by auto
  from scan_files_quiet [OF this] s2
  have s3: "class_definitions ?s3 = [(cn, [f0])] \<and> class_usages ?s3 cn = 1" by simp
  then have "find_unused_classes ?s3 = [\<lparr>uc_class = cn, uc_defined_in = [f0], uc_usage_count = 1\<rparr>]"
    by (simp add: find_unused_classes_def unused_classes_def)
  with s3 run show ?thesis by (auto intro: unused_classes_reported)
qed

definition lone_fs :: "string \<rightharpoonup> string" where
  "lone_fs = [''lib/foo.dart'' \<mapsto> ''class Foo {\<newline>  int n = 0;\<newline>}\<newline>'',
              ''lib/main.dart'' \<mapsto> ''void main() {\<newline>  print(1);\<newline>}\<newline>'']"

lemma lone_fs_classes:
  "finditer class_pattern ''class Foo {\<newline>  int n = 0;\<newline>}\<newline>'' = [''Foo'']"
  by code_simp

lemma lone_fs_others:
  "\<forall>f \<in> set ([''lib/foo.dart'', ''lib/main.dart''] @ [''test/missing_test.dart'']).
     f \<noteq> ''lib/foo.dart'' \<longrightarrow> no_class_no_mention lone_fs [''Foo''] f"
  by code_simp

theorem lone_class_counts_one_witness:
  "finditer class_pattern ''class Foo {\<newline>  int n = 0;\<newline>}\<newline>'' = [''Foo'']
   \<and> class_usages (analyze_imports_exports lone_fs
         (scanned [''lib/foo.dart'', ''lib/main.dart''] [''test/missing_test.dart''])) ''Foo'' = 1
   \<and> find_unused_classes (analyze_imports_exports lone_fs
         (scanned [''lib/foo.dart'', ''lib/main.dart''] [''test/missing_test.dart'']))
       = [\<lparr>uc_class = ''Foo'', uc_defined_in = [''lib/foo.dart''], uc_usage_count = 1\<rparr>]"
proof -
  have d: "distinct ([''lib/foo.dart'', ''lib/main.dart''] @ [''test/missing_test.dart''])"
    by simp
  have f0: "''lib/foo.dart'' \<in> set ([''lib/foo.dart'', ''lib/main.dart''] @ [''test/missing_test.dart''])"
    by simp
  have c0: "lone_fs ''lib/foo.dart'' = Some ''class Foo {\<newline>  int n = 0;\<newline>}\<newline>''"
    by (simp add: lone_fs_def)
  from lone_class_counts_one [OF d f0 c0 lone_fs_classes lone_fs_others] lone_fs_classes
  show ?thesis by simp
qed

text \<open>What one file adds to the import edges, the export edges and the class definitions.\<close>

definition file_imports :: "(string \<rightharpoonup> string) \<Rightarrow> string \<Rightarrow> (string \<times> string) set" where
  "file_imports fs f = (case fs f of None \<Rightarrow> {}
     | Some content \<Rightarrow> Pair f ` set (filter recorded_import (finditer import_pattern content)))"

definition file_exports :: "(string \<rightharpoonup> string) \<Rightarrow> string \<Rightarrow> (string \<times> string) set" where
  "file_exports fs f = (case fs f of None \<Rightarrow> {}
     | Some content \<Rightarrow> Pair f ` set (finditer export_pattern content))"

definition file_classes :: "(string \<rightharpoonup> string) \<Rightarrow> string \<Rightarrow> (string \<times> string) multiset" where
  "file_classes fs f = (case fs f of None \<Rightarrow> {#}
     | Some content \<Rightarrow> mset (map (\<lambda>c. (c, f)) (finditer class_pattern content)))"

text \<open>The definitions held by a dictionary, as pairs of a key and one of its values.\<close>

definition dict_pairs :: "('k \<times> 'v list) list \<Rightarrow> ('k \<times> 'v) multiset" where
  "dict_pairs d = mset (concat (map (\<lambda>(k, vs). map (Pair k) vs) d))"

lemma dict_pairs_append: "dict_pairs (dict_append d k v) = add_mset (k, v) (dict_pairs d)"
  by (induction d) (auto simp: dict_pairs_def)

lemma dict_pairs_foldl:
  "dict_pairs (foldl (\<lambda>d c. dict_append d c f) d cs) = dict_pairs d + mset (map (\<lambda>c. (c, f)) cs)"
  by (induction cs arbitrary: d) (auto simp: dict_pairs_append)

lemma scan_file_adds:
  "imports (scan_file fs f st) = imports st \<union> file_imports fs f
   \<and> exports (scan_file fs f st) = exports st \<union> file_exports fs f
   \<and> dict_pairs (class_definitions (scan_file fs f st))
       = dict_pairs (class_definitions st) + file_classes fs f"
  by (auto simp: scan_file_def file_imports_def file_exports_def file_classes_def Let_def
      dict_pairs_foldl split: option.splits)

lemma scan_files_add:
  "imports (foldl (\<lambda>s f. scan_file fs f s) st fl) = imports st \<union> (\<Union>f \<in> set fl. file_imports fs f)
   \<and> exports (foldl (\<lambda>s f. scan_file fs f s) st fl) = exports st \<union> (\<Union>f \<in> set fl. file_exports fs f)
   \<and> dict_pairs (class_definitions (foldl (\<lambda>s f. scan_file fs f s) st fl))
       = dict_pairs (class_definitions st) + (\<Sum>f \<in># mset fl. file_classes fs f)"
proof (induction fl arbitrary: st)
  case Nil
  show ?case by simp
next
  case (Cons f fl)
  show ?case
    using Cons.IH [of "scan_file fs f st"] scan_file_adds [of fs f st]
    by (auto simp: ac_simps)
qed

lemma scan_file_lib: "lib_files (scan_file fs f st) = lib_files st"
  by (simp add: scan_file_def Let_def split: option.splits)

lemma scan_files_lib: "lib_files (foldl (\<lambda>s f. scan_file fs f s) st fl) = lib_files st"
  by (induction fl arbitrary: st) (simp_all add: scan_file_lib)

lemma unused_files_loop_filter:
  "unused_files_loop imps files = filter (\<lambda>f. f \<in> set (unused_files_loop imps files)) files"
proof -
  let ?P = "\<lambda>f. \<not> contains ''.g.dart'' f \<and> \<not> contains ''.mocks.dart'' f
     \<and> \<not> contains ''export.dart'' f \<and> \<not> ends_with ''main.dart'' f
     \<and> (\<forall>imp \<in> imps. \<not> contains (basename f) imp \<and> \<not> contains (forward_slashes f) imp)"
  have "unused_files_loop imps files = filter ?P files"
    by (induction files) (auto simp: Let_def)
  also have "\<dots> = filter (\<lambda>f. f \<in> set (unused_files_loop imps files)) files"
    by (rule filter_cong) (auto simp: unused_files_loop_iff)
  finally show ?thesis .
qed

text \<open>
  Claim C8, as the code has it. The files are processed in the order in which
  \<open>scan_files\<close> lists them. For two listings of the same files, the import edges, the
  export edges, the class definitions (as pairs of a class and a defining file) and the
  set of unused files are the same; the list of unused files follows the listing of the
  library files. Nothing is said about the usage counts.
\<close>

theorem order_independent_parts:
  assumes "mset lib = mset lib'" and "mset test = mset test'"
  shows "imports (analyze_imports_exports fs (scanned lib test))
       = imports (analyze_imports_exports fs (scanned lib' test'))
     \<and> exports (analyze_imports_exports fs (scanned lib test))
       = exports (analyze_imports_exports fs (scanned lib' test'))
     \<and> dict_pairs (class_definitions (analyze_imports_exports fs (scanned lib test)))
       = dict_pairs (class_definitions (analyze_imports_exports fs (scanned lib' test')))
     \<and> set (find_unused_files (analyze_imports_exports fs (scanned lib test)))
       = set (find_unused_files (analyze_imports_exports fs (scanned lib' test')))
     \<and> find_unused_files (analyze_imports_exports fs (scanned lib test))
       = filter (\<lambda>f. f \<in> set (find_unused_files (analyze_imports_exports fs (scanned lib test)))) lib"
proof -
  let ?A = "analyze_imports_exports fs (scanned lib test)"
  let ?A' = "analyze_imports_exports fs (scanned lib' test')"
  from assms have m: "mset (lib @ test) = mset (lib' @ test')" by simp
  then have s: "set (lib @ test) = set (lib' @ test')" by (rule mset_eq_setD)
  from assms(1) have sl: "set lib = set lib'" by (rule mset_eq_setD)
  have i: "imports ?A = imports ?A'"
    using s scan_files_add [of fs "scanned lib test" "lib @ test"]
      scan_files_add [of fs "scanned lib' test'" "lib' @ test'"]
    by (simp add: analyze_imports_exports_def scanned_def)
  have e: "exports ?A = exports ?A'"
    using s scan_files_add [of fs "scanned lib test" "lib @ test"]
      scan_files_add [of fs "scanned lib' test'" "lib' @ test'"]
    by (simp add: analyze_imports_exports_def scanned_def)
  have c: "dict_pairs (class_definitions ?A) = dict_pairs (class_definitions ?A')"
    using m scan_files_add [of fs "scanned lib test" "lib @ test"]
      scan_files_add [of fs "scanned lib' test'" "lib' @ test'"]
    by (simp add: analyze_imports_exports_def scanned_def dict_pairs_def)
  have ll: "lib_files ?A = lib" "lib_files ?A' = lib'"
    by (simp_all add: analyze_imports_exports_def scanned_def scan_files_lib)
  have u: "set (find_unused_files ?A) = set (find_unused_files ?A')"
    using i sl ll by (auto simp: find_unused_files_def unused_files_loop_iff all_imports_def)
  have o: "find_unused_files ?A = filter (\<lambda>f. f \<in> set (find_unused_files ?A)) lib"
    using unused_files_loop_filter [of "all_imports ?A" lib] ll by (simp add: find_unused_files_def)
  from i e c u o show ?thesis by blast
qed

text \<open>
  Claim C8, as the specification states it, fails. In the corpus below \<open>a.dart\<close> uses
  the class \<open>Foo\<close> that \<open>b.dart\<close> defines. A usage is counted only in the files read
  after the first definition of the class: read in the order \<open>a, b\<close> the class has the
  usage count 1 and is reported as unused, read in the order \<open>b, a\<close> it has the count 2
  and is not. The list of unused files is in the order of reading.
\<close>

definition order_fs :: "string \<rightharpoonup> string" where
  "order_fs = [''lib/a.dart'' \<mapsto> ''Foo make() {\<newline>  return Foo();\<newline>}\<newline>'',
               ''lib/b.dart'' \<mapsto> ''class Foo {\<newline>}\<newline>'']"

lemma order_ab_classes:
  "find_unused_classes (analyze_imports_exports order_fs (scanned [''lib/a.dart'', ''lib/b.dart''] []))
     = [\<lparr>uc_class = ''Foo'', uc_defined_in = [''lib/b.dart''], uc_usage_count = 1\<rparr>]"
  by code_simp

lemma order_ba_classes:
  "find_unused_classes (analyze_imports_exports order_fs (scanned [''lib/b.dart'', ''lib/a.dart''] []))
     = []"
  by code_simp

lemma order_ab_files:
  "find_unused_files (analyze_imports_exports order_fs (scanned [''lib/a.dart'', ''lib/b.dart''] []))
     = [''lib/a.dart'', ''lib/b.dart'']"
  by code_simp

lemma order_ba_files:
  "find_unused_files (analyze_imports_exports order_fs (scanned [''lib/b.dart'', ''lib/a.dart''] []))
     = [''lib/b.dart'', ''lib/a.dart'']"
  by code_simp

theorem file_order_changes_results_counterexample:
  "find_unused_classes (analyze_imports_exports order_fs (scanned [''lib/a.dart'', ''lib/b.dart''] []))
     = [\<lparr>uc_class = ''Foo'', uc_defined_in = [''lib/b.dart''], uc_usage_count = 1\<rparr>]
   \<and> find_unused_classes (analyze_imports_exports order_fs (scanned [''lib/b.dart'', ''lib/a.dart''] []))
     = []
   \<and> find_unused_files (analyze_imports_exports order_fs (scanned [''lib/a.dart'', ''lib/b.dart''] []))
     = [''lib/a.dart'', ''lib/b.dart'']
   \<and> find_unused_files (analyze_imports_exports order_fs (scanned [''lib/b.dart'', ''lib/a.dart''] []))
     = [''lib/b.dart'', ''lib/a.dart'']"
  by (simp add: order_ab_classes order_ba_classes order_ab_files order_ba_files)

theorem order_independent_parts_witness:
  "mset [''lib/a.dart'', ''lib/b.dart''] = mset [''lib/b.dart'', ''lib/a.dart'']
   \<and> imports (analyze_imports_exports order_fs (scanned [''lib/a.dart'', ''lib/b.dart''] []))
     = imports (analyze_imports_exports order_fs (scanned [''lib/b.dart'', ''lib/a.dart''] []))
   \<and> dict_pairs (class_definitions (analyze_imports_exports order_fs (scanned [''lib/a.dart'', ''lib/b.dart''] [])))
     = dict_pairs (class_definitions (analyze_imports_exports order_fs (scanned [''lib/b.dart'', ''lib/a.dart''] [])))
   \<and> set (find_unused_files (analyze_imports_exports order_fs (scanned [''lib/a.dart'', ''lib/b.dart''] [])))
     = set (find_unused_files (analyze_imports_exports order_fs (scanned [''lib/b.dart'', ''lib/a.dart''] [])))
   \<and> find_unused_files (analyze_imports_exports order_fs (scanned [''lib/a.dart'', ''lib/b.dart''] []))
     = [''lib/a.dart'', ''lib/b.dart'']"
proof -
  have m: "mset [''lib/a.dart'', ''lib/b.dart''] = mset [''lib/b.dart'', ''lib/a.dart'']"
    by simp
  have t: "mset ([] :: string list) = mset []" by simp
  from order_independent_parts [OF m t, of order_fs] m order_ab_files
  show ?thesis by blast
qed

end
